theory Spec2Isabelle
  imports Complex_Main "HOL-Library.Word" "HOL-Library.Signed_Division"
begin

unbundle bit_operations_syntax

section \<open>Numeric model\<close>

text \<open>
  The C source \<^verbatim>\<open>src/c/ssht_sampling.c\<close> computes with \<^verbatim>\<open>int\<close>, \<^verbatim>\<open>double\<close> and
  \<^verbatim>\<open>complex double\<close>.

  \<^item> \<^verbatim>\<open>int\<close> is a 32-bit two's complement integer: the type \<open>32 word\<close>, read
    with \<open>sint\<close>. Arithmetic that the source performs in \<^verbatim>\<open>int\<close> wraps around here
    (in C a signed overflow is undefined; wrapping is what the usual targets do).
    Where the source converts an \<^verbatim>\<open>int\<close> to \<^verbatim>\<open>double\<close> before any arithmetic, or only
    counts a loop with it, the parameter is an \<open>int\<close> of HOL, of which the 32-bit values
    are a part.
  \<^item> \<^verbatim>\<open>double\<close> is idealised as \<open>real\<close> and \<^verbatim>\<open>complex double\<close> as \<open>complex\<close>:
    \<open>+\<close>, \<open>-\<close>, \<open>*\<close>, \<open>/\<close>, \<^verbatim>\<open>sin\<close>, \<^verbatim>\<open>cos\<close>, \<^verbatim>\<open>acos\<close> are the exact operations.
    Rounding, infinities and NaN are outside this model. Three claims are about the
    very bits of a result, and for them the code is modelled in IEEE 754 binary64, every
    operation rounded: the square root of \<^verbatim>\<open>ssht_sampling_ind2elm\<close>, off which an
    integer is read (\<open>double_sqrt\<close>); the angles of \<^verbatim>\<open>ssht_sampling_mw_t2theta\<close>, whose
    spacing is claimed to be exact (\<open>ssht_sampling_mw_t2theta_b64\<close>); and \<^verbatim>\<open>gauleg\<close>,
    whose abscissas are claimed to be exactly opposite (\<open>gauleg_b64\<close>).
\<close>

type_synonym c_int = "32 word"

text \<open>
  Modelled from the spec: the macros \<^verbatim>\<open>SSHT_PI\<close> and \<^verbatim>\<open>SSHT_PION2\<close> of the header
  \<^verbatim>\<open>ssht_types.h\<close>, which the spec calls pi and pi/2.
\<close>

definition SSHT_PI :: real where
  "SSHT_PI = pi"

definition SSHT_PION2 :: real where
  "SSHT_PION2 = pi / 2"

text \<open>
  IEEE 754 binary64 has a significand of 53 bits, and every operation of C returns the
  \<^verbatim>\<open>double\<close> nearest to its exact result, a tie going to the even significand: \<open>rne\<close>
  is that choice among the integers, and \<open>binary64 x\<close> applies it to \<open>x\<close> in units of its
  last place, the exponent not going below that of the subnormal numbers. Each operation
  is rounded on its own (no fused multiply-add, no wider intermediate format). Results
  of magnitude \<open>2 ^ 1024\<close> and more, which overflow to an infinity, are not modelled; none
  occurs below.
\<close>

definition rne :: "real \<Rightarrow> int" where
  "rne y =
     (let f = \<lfloor>y\<rfloor>;
          d = y - real_of_int f
      in if d < 1 / 2 then f else if 1 / 2 < d then f + 1 else if even f then f else f + 1)"

definition binary64 :: "real \<Rightarrow> real" where
  "binary64 x =
     (if x = 0 then 0
      else (let e = max \<lfloor>log 2 \<bar>x\<bar>\<rfloor> (- 1022) - 52
            in real_of_int (rne (x / 2 powr real_of_int e)) * 2 powr real_of_int e))"


section \<open>Sampling weights\<close>

text \<open>
  \<^verbatim>\<open>complex double ssht_sampling_weight_mw(int p)\<close>. The test \<^verbatim>\<open>p % 2 == 0\<close> is C's
  remainder, which truncates towards zero (\<open>smod\<close>); the product \<^verbatim>\<open>p*p\<close> is formed in
  \<^verbatim>\<open>int\<close> and only then converted to \<^verbatim>\<open>double\<close>.
\<close>

definition ssht_sampling_weight_mw :: "c_int \<Rightarrow> complex" where
  "ssht_sampling_weight_mw p =
     (if p = 1 then \<i> * complex_of_real SSHT_PION2
      else if p = - 1 then - \<i> * complex_of_real SSHT_PION2
      else if sint p smod 2 = 0
        then complex_of_real (2 / (1 - real_of_int (sint (p * p))))
      else 0)"

text \<open>
  \<^verbatim>\<open>double ssht_sampling_weight_dh(double theta_t, int L)\<close>. The loop
  \<^verbatim>\<open>for (k=0; k<=L-1; k++) w += sin((2.0*k+1.0)*theta_t) / (double)(2.0*k+1.0);\<close>
  carries \<open>k\<close> and \<open>w\<close>; \<^verbatim>\<open>k\<close> is converted to \<^verbatim>\<open>double\<close> before it is used.
  For \<open>L = 0\<close> the source divides by zero, which the idealised \<open>real\<close> does not
  represent: nothing below is about \<open>ssht_sampling_weight_dh\<close> at \<open>L = 0\<close>.
\<close>

function weight_dh_loop :: "real \<Rightarrow> int \<Rightarrow> int \<Rightarrow> real \<Rightarrow> real" where
  "weight_dh_loop theta_t L k w =
     (if k \<le> L - 1
      then weight_dh_loop theta_t L (k + 1)
             (w + sin ((2 * real_of_int k + 1) * theta_t) / (2 * real_of_int k + 1))
      else w)"
  by pat_completeness auto
termination
  by (relation "measure (\<lambda>(theta_t, L, k, w). nat (L - k))") auto

definition ssht_sampling_weight_dh :: "real \<Rightarrow> int \<Rightarrow> real" where
  "ssht_sampling_weight_dh theta_t L =
     (let w = weight_dh_loop theta_t L 0 0
      in w * (2 / real_of_int L * sin theta_t))"

section \<open>Gauss-Legendre quadrature\<close>

text \<open>
  \<^verbatim>\<open>void gauleg(double x1, double x2, double *x, double *w, int n)\<close>. The output
  arrays are memory that the caller owns: a buffer is a function from the C index to the
  stored \<^verbatim>\<open>double\<close>, and a store \<^verbatim>\<open>x[i] = v\<close> is the update \<open>x(i := v)\<close>.
\<close>

type_synonym buffer = "int \<Rightarrow> real"

definition EPS :: real where
  "EPS = 1 / 10 ^ 14"

text \<open>The macro \<^verbatim>\<open>#define ABS(x) ((x) >= 0 ? (x) : -(x))\<close>.\<close>

definition ABS :: "real \<Rightarrow> real" where
  "ABS x = (if x \<ge> 0 then x else - x)"

text \<open>
  The inner loop \<^verbatim>\<open>for (j=1; j<=n; j++) { p3=p2; p2=p1; p1=((2.0*j-1.0)*z*p2-(j-1.0)*p3)/j; }\<close>
  with the state \<open>(p1, p2)\<close>; \<^verbatim>\<open>p3\<close> is assigned before it is read.
\<close>

function legendre_loop :: "int \<Rightarrow> real \<Rightarrow> int \<Rightarrow> real \<Rightarrow> real \<Rightarrow> real \<times> real" where
  "legendre_loop n z j p1 p2 =
     (if j \<le> n
      then (let p3 = p2;
                p2 = p1;
                p1 = ((2 * real_of_int j - 1) * z * p2 - (real_of_int j - 1) * p3) / real_of_int j
            in legendre_loop n z (j + 1) p1 p2)
      else (p1, p2))"
  by pat_completeness auto
termination
  by (relation "measure (\<lambda>(n, z, j, p1, p2). nat (n + 1 - j))") auto

text \<open>
  One pass through the body of the \<^verbatim>\<open>do { ... } while (ABS(z-z1) > EPS);\<close> loop: from the
  current \<open>z\<close> it yields the new \<open>z\<close>, the old one \<open>z1\<close> and the derivative \<open>pp\<close>.
\<close>

definition newton_step :: "int \<Rightarrow> real \<Rightarrow> real \<times> real \<times> real" where
  "newton_step n z =
     (let (p1, p2) = legendre_loop n z 1 1 0;
          pp = real_of_int n * (z * p1 - p2) / (z * z - 1);
          z1 = z;
          z = z1 - p1 / pp
      in (z, z1, pp))"

text \<open>
  The \<^verbatim>\<open>do ... while\<close> loop itself. The source gives it no other exit than its test, so
  it is a partial function: \<open>None\<close> is a loop that never leaves.
\<close>

partial_function (option) newton_loop :: "int \<Rightarrow> real \<Rightarrow> (real \<times> real) option" where
  "newton_loop n z =
     (case newton_step n z of
        (z', z1, pp) \<Rightarrow> if ABS (z' - z1) > EPS then newton_loop n z' else Some (z', pp))"

text \<open>The outer loop \<^verbatim>\<open>for (i=1; i<=m; i++)\<close> and the four stores that end its body.\<close>

function gauleg_loop ::
  "real \<Rightarrow> real \<Rightarrow> int \<Rightarrow> int \<Rightarrow> int \<Rightarrow> buffer \<Rightarrow> buffer \<Rightarrow> (buffer \<times> buffer) option" where
  "gauleg_loop xm xl n m i x w =
     (if i \<le> m
      then (case newton_loop n (cos (3.141592654 * (real_of_int i - 0.25) / (real_of_int n + 0.5))) of
              None \<Rightarrow> None
            | Some (z, pp) \<Rightarrow>
                (let x = x(i - 1 := xm - xl * z);
                     x = x(n + 1 - i - 1 := xm + xl * z);
                     w = w(i - 1 := 2 * xl / ((1 - z * z) * pp * pp));
                     w = w(n + 1 - i - 1 := w (i - 1))
                 in gauleg_loop xm xl n m (i + 1) x w))
      else Some (x, w))"
  by pat_completeness auto
termination
  by (relation "measure (\<lambda>(xm, xl, n, m, i, x, w). nat (m + 1 - i))") auto

text \<open>\<^verbatim>\<open>m=(n+1)/2\<close> is C's integer division, which truncates towards zero (\<open>sdiv\<close>).\<close>

definition gauleg :: "real \<Rightarrow> real \<Rightarrow> buffer \<Rightarrow> buffer \<Rightarrow> int \<Rightarrow> (buffer \<times> buffer) option" where
  "gauleg x1 x2 x w n =
     (let m = (n + 1) sdiv 2;
          xm = 0.5 * (x2 + x1);
          xl = 0.5 * (x2 - x1)
      in gauleg_loop xm xl n m 1 x w)"

text \<open>
  \<^verbatim>\<open>void ssht_sampling_gl_thetas_weights(double *thetas, double *weights, int L)\<close>:
  the call of \<^verbatim>\<open>gauleg\<close>, then \<^verbatim>\<open>for (t=0; t<=L-1; t++) thetas[t] = acos(thetas[t]);\<close>.
\<close>

function acos_loop :: "int \<Rightarrow> int \<Rightarrow> buffer \<Rightarrow> buffer" where
  "acos_loop L t thetas =
     (if t \<le> L - 1 then acos_loop L (t + 1) (thetas(t := arccos (thetas t))) else thetas)"
  by pat_completeness auto
termination
  by (relation "measure (\<lambda>(L, t, thetas). nat (L - t))") auto

definition ssht_sampling_gl_thetas_weights ::
  "buffer \<Rightarrow> buffer \<Rightarrow> int \<Rightarrow> (buffer \<times> buffer) option" where
  "ssht_sampling_gl_thetas_weights thetas weights L =
     (case gauleg (- 1) 1 thetas weights L of
        None \<Rightarrow> None
      | Some (thetas, weights) \<Rightarrow> Some (acos_loop L 0 thetas, weights))"


text \<open>
  \<^verbatim>\<open>gauleg\<close> once more, in binary64: the same statements, every operation rounded.
\<close>








section \<open>Sampling relations\<close>

text \<open>
  \<^verbatim>\<open>return (2.0*t + 1.0) * SSHT_PI / (2.0*L - 1.0);\<close> and
  \<^verbatim>\<open>return 2.0 * p * SSHT_PI / (2.0*L - 1.0);\<close>: both indices are converted to
  \<^verbatim>\<open>double\<close> by their first use.
\<close>

definition ssht_sampling_mw_t2theta :: "int \<Rightarrow> int \<Rightarrow> real" where
  "ssht_sampling_mw_t2theta t L = (2 * real_of_int t + 1) * SSHT_PI / (2 * real_of_int L - 1)"

definition ssht_sampling_mw_p2phi :: "int \<Rightarrow> int \<Rightarrow> real" where
  "ssht_sampling_mw_p2phi p L = 2 * real_of_int p * SSHT_PI / (2 * real_of_int L - 1)"

text \<open>
  Modelled from the spec: the macro \<^verbatim>\<open>SSHT_PI\<close> as a \<^verbatim>\<open>double\<close> constant, the
  \<^verbatim>\<open>double\<close> nearest to pi.
\<close>

definition SSHT_PI_b64 :: real where
  "SSHT_PI_b64 = binary64 pi"

text \<open>
  The angle as the \<^verbatim>\<open>double\<close> that the code returns:
  \<^verbatim>\<open>return (2.0*t + 1.0) * SSHT_PI / (2.0*L - 1.0);\<close> with the conversions of \<^verbatim>\<open>t\<close> and
  \<^verbatim>\<open>L\<close> to \<^verbatim>\<open>double\<close> and each of the six operations rounded, from left to right.
\<close>

definition ssht_sampling_mw_t2theta_b64 :: "int \<Rightarrow> int \<Rightarrow> real" where
  "ssht_sampling_mw_t2theta_b64 t L =
     binary64 (binary64 (binary64 (binary64 (2 * binary64 (real_of_int t)) + 1) * SSHT_PI_b64)
       / binary64 (binary64 (2 * binary64 (real_of_int L)) - 1))"

section \<open>Harmonic index relations\<close>

text \<open>\<^verbatim>\<open>*ind = el * el + el + m;\<close> in \<^verbatim>\<open>int\<close> arithmetic.\<close>

definition ssht_sampling_elm2ind :: "c_int \<Rightarrow> c_int \<Rightarrow> c_int" where
  "ssht_sampling_elm2ind el m = el * el + el + m"

text \<open>
  \<^verbatim>\<open>*el = sqrt(ind);\<close> converts \<^verbatim>\<open>ind\<close> to \<^verbatim>\<open>double\<close> (exactly: a 32-bit integer
  fits the 53-bit significand), takes the square root in \<^verbatim>\<open>double\<close> and converts the
  result back to \<^verbatim>\<open>int\<close>, which truncates towards zero.

  The square root is the C library's. IEEE 754 requires it to be correctly rounded: the
  result is the \<^verbatim>\<open>double\<close> nearest to the exact root. For an integer \<open>n > 0\<close> with
  \<open>4 ^ e \<le> n < 4 ^ (e + 1)\<close> the exact root lies in \<open>[2 ^ e, 2 ^ (e + 1))\<close>, where the
  \<^verbatim>\<open>double\<close>s are the multiples of \<open>2 ^ e / 2 ^ 52\<close>; so the result is \<open>M / 2 ^ (52 - e)\<close>
  for the integer \<open>M\<close> nearest to the root of \<open>N = n * 4 ^ (52 - e)\<close>. A tie cannot
  occur (the root of an integer is an integer or irrational), and \<open>M\<close> is the integer
  root \<open>r\<close> of \<open>N\<close> when \<open>N \<le> r\<^sup>2 + r\<close> and \<open>r + 1\<close> otherwise. This covers
  \<open>e \<le> 52\<close>, far more than the 32-bit arguments that occur.
\<close>

function isqrt :: "int \<Rightarrow> int" where
  "isqrt n =
     (if n < 1 then 0
      else (let r = 2 * isqrt (n div 4)
            in if (r + 1) * (r + 1) \<le> n then r + 1 else r))"
  by pat_completeness auto
termination
  by (relation "measure nat") auto

function ilog4 :: "int \<Rightarrow> nat" where
  "ilog4 n = (if n < 4 then 0 else Suc (ilog4 (n div 4)))"
  by pat_completeness auto
termination
  by (relation "measure nat") auto

definition double_sqrt :: "int \<Rightarrow> real" where
  "double_sqrt n =
     (if n = 0 then 0
      else (let e = ilog4 n;
                N = n * 4 ^ (52 - e);
                r = isqrt N;
                M = (if N - r * r \<le> r then r else r + 1)
            in real_of_int M / 2 ^ (52 - e)))"

text \<open>The conversion from \<^verbatim>\<open>double\<close> to \<^verbatim>\<open>int\<close> drops the fraction.\<close>

definition double_to_int :: "real \<Rightarrow> c_int" where
  "double_to_int d = word_of_int (if 0 \<le> d then \<lfloor>d\<rfloor> else \<lceil>d\<rceil>)"

text \<open>
  \<^verbatim>\<open>*el = sqrt(ind); *m = ind - (*el)*(*el) - (*el);\<close>. For a negative \<^verbatim>\<open>ind\<close> the root
  is NaN and its conversion to \<^verbatim>\<open>int\<close> is undefined: \<open>None\<close>.
\<close>

definition ssht_sampling_ind2elm :: "c_int \<Rightarrow> (c_int \<times> c_int) option" where
  "ssht_sampling_ind2elm ind =
     (if sint ind < 0 then None
      else (let el = double_to_int (double_sqrt (sint ind));
                m = ind - el * el - el
            in Some (el, m)))"


text \<open>
  The loops are recursive equations that hold without a condition; they are unfolded one
  pass at a time, by hand.
\<close>

declare weight_dh_loop.simps [simp del]
declare legendre_loop.simps [simp del]
declare gauleg_loop.simps [simp del]
declare acos_loop.simps [simp del]
declare isqrt.simps [simp del]
declare ilog4.simps [simp del]

section \<open>Facts about 32-bit integers\<close>

lemma sint_range32: "- (2 ^ 31) \<le> sint (p :: c_int) \<and> sint p < 2 ^ 31"
  using sint_ge [of p] sint_lt [of p] by simp

lemma sint_eq_iff32: "sint (p :: c_int) = sint q \<longleftrightarrow> p = q"
  using signed_word_eqI [of p q] by blast

lemma smod2_even: "(k smod 2 = 0) = even (k :: int)"
proof -
  have "(\<bar>k\<bar> mod 2 = 0) = (k mod 2 = 0)" by presburger
  then show ?thesis
    by (cases "k = 0") (simp_all add: smod_int_alt_def sgn_if even_iff_mod_2_eq_zero)
qed

lemma even_sint_minus32: "even (sint (- p :: c_int)) = even (sint p)"
  by (simp add: sint_word_minus even_signed_take_bit_iff)

lemma sint_small_mult32:
  assumes "- 46340 \<le> sint (p :: c_int)" "sint p \<le> 46340"
  shows "sint (p * p) = sint p * sint p"
proof -
  have "\<bar>sint p\<bar> \<le> 46340" using assms by simp
  then have "\<bar>sint p\<bar> * \<bar>sint p\<bar> \<le> 46340 * 46340"
    by (intro mult_mono) simp_all
  then have b: "sint p * sint p < 2 ^ 31"
    by simp
  have a: "- (2 ^ 31) \<le> sint p * sint p"
    by (rule order_trans [of _ 0]) simp_all
  have "signed_take_bit (31::nat) (sint p * sint p) = sint p * sint p"
    using a b by (rule signed_take_bit_int_eq_self)
  then show ?thesis
    by (simp add: sint_word_mult)
qed

lemma minus_eq_one32: "(- p = (1 :: c_int)) = (p = - 1)"
  using neg_equal_iff_equal [of p "- 1"] by simp

lemma minus_eq_m1_32: "(- p = (- 1 :: c_int)) = (p = 1)"
  by simp


lemma sint_eq_one32: "(sint (p :: c_int) = 1) = (p = 1)"
  using sint_eq_iff32 [of p 1] by simp

lemma sint_eq_m1_32: "(sint (p :: c_int) = - 1) = (p = - 1)"
  using sint_eq_iff32 [of p "- 1"] by simp

section \<open>The weights of the toroidal extension\<close>

text \<open>
  What \<^verbatim>\<open>ssht_sampling_weight_mw\<close> returns where no product leaves the range of
  \<^verbatim>\<open>int\<close>. The branches of \<open>1\<close>, of \<open>- 1\<close> and of the other odd \<open>p\<close> never form
  \<^verbatim>\<open>p*p\<close> and hold for every \<^verbatim>\<open>int\<close>; the branch of the even \<open>p\<close> is
  \<open>2 / (1 - p\<^sup>2)\<close> as long as \<open>p\<^sup>2\<close> fits an \<^verbatim>\<open>int\<close>, that is for \<open>|p| \<le> 46340\<close>.
\<close>

lemma weight_mw_branches:
  "ssht_sampling_weight_mw 1 = \<i> * complex_of_real (pi / 2)
   \<and> ssht_sampling_weight_mw (- 1) = - \<i> * complex_of_real (pi / 2)
   \<and> (odd (sint p) \<and> p \<noteq> 1 \<and> p \<noteq> - 1 \<longrightarrow> ssht_sampling_weight_mw p = 0)
   \<and> (even (sint p) \<and> - 46340 \<le> sint p \<and> sint p \<le> 46340 \<longrightarrow>
        ssht_sampling_weight_mw p = complex_of_real (2 / (1 - (real_of_int (sint p))\<^sup>2)))
   \<and> ssht_sampling_weight_mw 0 = 2
   \<and> ssht_sampling_weight_mw 2 = - (2 / 3)
   \<and> ssht_sampling_weight_mw 3 = 0"
proof -
  have v1: "ssht_sampling_weight_mw 1 = \<i> * complex_of_real (pi / 2)"
    by (simp add: ssht_sampling_weight_mw_def SSHT_PION2_def)
  have vm1: "ssht_sampling_weight_mw (- 1) = - \<i> * complex_of_real (pi / 2)"
    by (simp add: ssht_sampling_weight_mw_def SSHT_PION2_def)
  have odd_branch: "ssht_sampling_weight_mw p = 0"
    if "odd (sint p)" "p \<noteq> 1" "p \<noteq> - 1"
    using that by (simp add: ssht_sampling_weight_mw_def smod2_even)
  have even_branch:
    "ssht_sampling_weight_mw p = complex_of_real (2 / (1 - (real_of_int (sint p))\<^sup>2))"
    if "even (sint p)" "- 46340 \<le> sint p" "sint p \<le> 46340"
  proof -
    have sq: "sint (p * p) = sint p * sint p"
      using that(2,3) by (rule sint_small_mult32)
    have "p \<noteq> 1" "p \<noteq> - 1"
      using that(1) by auto
    with that(1) sq show ?thesis
      by (simp add: ssht_sampling_weight_mw_def smod2_even power2_eq_square)
  qed
  have v0: "ssht_sampling_weight_mw 0 = 2"
    by (simp add: ssht_sampling_weight_mw_def smod2_even)
  have v2: "ssht_sampling_weight_mw 2 = - (2 / 3)"
    by (simp add: ssht_sampling_weight_mw_def smod2_even)
  have v3: "ssht_sampling_weight_mw 3 = 0"
    by (simp add: ssht_sampling_weight_mw_def smod2_even)
  from v1 vm1 odd_branch even_branch v0 v2 v3 show ?thesis by blast
qed

text \<open>
  Claim C2 gives the even branch the value \<open>2 / (1 - p\<^sup>2)\<close> for every integer \<open>p\<close>. The
  source writes \<^verbatim>\<open>2.0 / (1.0 - p*p)\<close>: the product is formed in \<^verbatim>\<open>int\<close> and converted to
  \<^verbatim>\<open>double\<close> afterwards, whereas the other functions of the file convert first
  (\<^verbatim>\<open>2.0*t + 1.0\<close>, \<^verbatim>\<open>2.0*k+1.0\<close>). At \<open>p = 65536\<close> the product \<open>2 ^ 32\<close> wraps to \<open>0\<close>
  and the function returns \<open>2 / (1 - 0) = 2\<close>, not \<open>2 / (1 - 65536\<^sup>2)\<close>.
\<close>

theorem weight_mw_overflow:
  "ssht_sampling_weight_mw 65536 = 2
   \<and> ssht_sampling_weight_mw 65536 \<noteq> complex_of_real (2 / (1 - (real_of_int (sint (65536 :: c_int)))\<^sup>2))"
proof -
  have a: "ssht_sampling_weight_mw 65536 = complex_of_real 2"
    by (simp add: ssht_sampling_weight_mw_def smod2_even)
  have b: "(2 :: real) \<noteq> 2 / (1 - (real_of_int (sint (65536 :: c_int)))\<^sup>2)"
    by simp
  have "complex_of_real 2 \<noteq> complex_of_real (2 / (1 - (real_of_int (sint (65536 :: c_int)))\<^sup>2))"
    using b by (simp only: of_real_eq_iff not_False_eq_True)
  with a show ?thesis by simp
qed

text \<open>
  Claim C10. For every \<^verbatim>\<open>int\<close> \<open>p\<close>, \<^verbatim>\<open>ssht_sampling_weight_mw(-p)\<close> is the complex
  conjugate of \<^verbatim>\<open>ssht_sampling_weight_mw(p)\<close>: the branches of \<open>1\<close> and \<open>- 1\<close> are
  conjugate to each other, and the other branches give a real value that the sign of
  \<open>p\<close> does not change, C's remainder being \<open>0\<close> for \<open>- p\<close> exactly when it is for \<open>p\<close>.
\<close>

theorem weight_mw_conjugate:
  "ssht_sampling_weight_mw (- p) = cnj (ssht_sampling_weight_mw p)"
proof -
  consider (one) "p = 1" | (mone) "p = - 1" | (other) "p \<noteq> 1" "p \<noteq> - 1"
    by blast
  then show ?thesis
  proof cases
    case one
    then show ?thesis by (simp add: ssht_sampling_weight_mw_def)
  next
    case mone
    then show ?thesis by (simp add: ssht_sampling_weight_mw_def)
  next
    case other
    then have n: "- p \<noteq> 1" "- p \<noteq> - 1"
      by (simp_all add: minus_eq_one32)
    have e: "(sint (- p) smod 2 = 0) = (sint p smod 2 = 0)"
      by (simp only: smod2_even even_sint_minus32)
    have m: "- p * - p = p * p" by simp
    show ?thesis
      unfolding ssht_sampling_weight_mw_def
      by (simp only: n other e m if_False complex_cnj_complex_of_real complex_cnj_zero
          split: if_split) simp
  qed
qed

section \<open>The Driscoll and Healy weights\<close>

lemma int_interval_insert_lower: "k \<le> n \<Longrightarrow> {k..n} = insert k {k + 1..n}" for k n :: int
  by auto

lemma weight_dh_loop_sum:
  "weight_dh_loop theta_t L k w =
     w + (\<Sum>j\<in>{k..L - 1}. sin ((2 * real_of_int j + 1) * theta_t) / (2 * real_of_int j + 1))"
proof (induction theta_t L k w rule: weight_dh_loop.induct)
  case (1 theta_t L k w)
  show ?case
  proof (cases "k \<le> L - 1")
    case True
    have s: "{k..L - 1} = insert k {k + 1..L - 1}"
      using True by (rule int_interval_insert_lower)
    have "weight_dh_loop theta_t L k w =
        weight_dh_loop theta_t L (k + 1)
          (w + sin ((2 * real_of_int k + 1) * theta_t) / (2 * real_of_int k + 1))"
      using True by (subst weight_dh_loop.simps) simp
    also have "\<dots> = w + sin ((2 * real_of_int k + 1) * theta_t) / (2 * real_of_int k + 1)
        + (\<Sum>j\<in>{k + 1..L - 1}. sin ((2 * real_of_int j + 1) * theta_t) / (2 * real_of_int j + 1))"
      using True by (rule "1.IH")
    also have "\<dots> = w + (\<Sum>j\<in>{k..L - 1}. sin ((2 * real_of_int j + 1) * theta_t) / (2 * real_of_int j + 1))"
      by (subst s) simp
    finally show ?thesis .
  next
    case False
    then show ?thesis by (subst weight_dh_loop.simps) simp
  qed
qed

text \<open>
  Claim C3. For every colatitude \<open>theta\<close> and every band-limit \<open>L \<ge> 1\<close>,
  \<^verbatim>\<open>ssht_sampling_weight_dh(theta, L)\<close> is \<open>(2 / L) * sin theta\<close> times the sum over
  \<open>k = 0, \<dots>, L - 1\<close> of \<open>sin ((2 k + 1) theta) / (2 k + 1)\<close>; for \<open>theta = pi / 2\<close> and
  \<open>L = 1\<close> it is \<open>2\<close>.
\<close>

theorem weight_dh_series:
  "(1 \<le> L \<longrightarrow>
      ssht_sampling_weight_dh theta L =
        2 / real_of_int L * sin theta *
          (\<Sum>k\<in>{0..L - 1}. sin ((2 * real_of_int k + 1) * theta) / (2 * real_of_int k + 1)))
   \<and> ssht_sampling_weight_dh (pi / 2) 1 = 2"
proof -
  have g: "ssht_sampling_weight_dh theta L =
        2 / real_of_int L * sin theta *
          (\<Sum>k\<in>{0..L - 1}. sin ((2 * real_of_int k + 1) * theta) / (2 * real_of_int k + 1))" for theta L
    by (simp add: ssht_sampling_weight_dh_def weight_dh_loop_sum)
  have "ssht_sampling_weight_dh (pi / 2) 1 = 2"
    by (simp add: g)
  with g show ?thesis by simp
qed

text \<open>The theorem at \<open>theta = pi / 2\<close>, \<open>L = 2\<close>: the weight is \<open>1 - 1 / 3\<close>.\<close>

theorem weight_dh_series_witness:
  "(1 :: int) \<le> 2 \<and> ssht_sampling_weight_dh (pi / 2) 2 = 2 / 3"
proof -
  have s: "{0..1 :: int} = {0, 1}" by auto
  have "sin (3 * (pi / 2)) = - 1"
    using sin_3over2_pi by (simp add: mult.commute)
  then show ?thesis
    using weight_dh_series [of 2 "pi / 2"] by (simp add: s)
qed

section \<open>The angles of the McEwen and Wiaux sampling\<close>

text \<open>
  The angles in exact arithmetic. For every band-limit \<open>L \<ge> 1\<close> and every \<open>t\<close> in
  \<open>[0, 2 L - 2]\<close> the value of the expression is \<open>(2 t + 1) pi / (2 L - 1)\<close>; it lies
  strictly inside \<open>(0, 2 pi)\<close>, in particular at \<open>t = 0\<close> and at \<open>t = 2 L - 2\<close>, and the
  step from \<open>t\<close> to \<open>t + 1\<close> is \<open>2 pi / (2 L - 1)\<close>.
\<close>

lemma mw_t2theta_exact:
  "1 \<le> L \<and> 0 \<le> t \<and> t \<le> 2 * L - 2 \<longrightarrow>
     ssht_sampling_mw_t2theta t L = (2 * real_of_int t + 1) * pi / (2 * real_of_int L - 1)
     \<and> 0 < ssht_sampling_mw_t2theta t L \<and> ssht_sampling_mw_t2theta t L < 2 * pi
     \<and> 0 < ssht_sampling_mw_t2theta 0 L \<and> ssht_sampling_mw_t2theta 0 L < 2 * pi
     \<and> 0 < ssht_sampling_mw_t2theta (2 * L - 2) L \<and> ssht_sampling_mw_t2theta (2 * L - 2) L < 2 * pi
     \<and> ssht_sampling_mw_t2theta (t + 1) L - ssht_sampling_mw_t2theta t L
         = 2 * pi / (2 * real_of_int L - 1)"
proof (intro impI)
  assume a: "1 \<le> L \<and> 0 \<le> t \<and> t \<le> 2 * L - 2"
  then have d: "0 < 2 * real_of_int L - 1" by simp
  have inside: "0 < ssht_sampling_mw_t2theta s L \<and> ssht_sampling_mw_t2theta s L < 2 * pi"
    if "0 \<le> s" "s \<le> 2 * L - 2" for s
  proof -
    have "real_of_int s \<le> real_of_int (2 * L - 2)" using that(2) by (rule of_int_le_iff [THEN iffD2])
    then have "2 * real_of_int s + 1 < 2 * (2 * real_of_int L - 1)" by simp
    then have "(2 * real_of_int s + 1) * pi < 2 * (2 * real_of_int L - 1) * pi"
      by (simp only: mult_less_cancel_right_pos pi_gt_zero)
    then have "(2 * real_of_int s + 1) * pi / (2 * real_of_int L - 1) < 2 * pi"
      using d by (simp add: pos_divide_less_eq mult.commute mult.left_commute)
    moreover have "0 < (2 * real_of_int s + 1) * pi / (2 * real_of_int L - 1)"
      using d that(1) by (intro divide_pos_pos mult_pos_pos) simp_all
    ultimately show ?thesis by (simp add: ssht_sampling_mw_t2theta_def SSHT_PI_def)
  qed
  have sp: "ssht_sampling_mw_t2theta (t + 1) L - ssht_sampling_mw_t2theta t L
         = 2 * pi / (2 * real_of_int L - 1)"
    by (simp add: ssht_sampling_mw_t2theta_def SSHT_PI_def diff_divide_distrib [symmetric] algebra_simps)
  have v: "ssht_sampling_mw_t2theta t L = (2 * real_of_int t + 1) * pi / (2 * real_of_int L - 1)"
    by (simp add: ssht_sampling_mw_t2theta_def SSHT_PI_def)
  from a have "0 \<le> 2 * L - 2" by simp
  with a inside [of t] inside [of 0] inside [of "2 * L - 2"] sp v
  show "ssht_sampling_mw_t2theta t L = (2 * real_of_int t + 1) * pi / (2 * real_of_int L - 1)
     \<and> 0 < ssht_sampling_mw_t2theta t L \<and> ssht_sampling_mw_t2theta t L < 2 * pi
     \<and> 0 < ssht_sampling_mw_t2theta 0 L \<and> ssht_sampling_mw_t2theta 0 L < 2 * pi
     \<and> 0 < ssht_sampling_mw_t2theta (2 * L - 2) L \<and> ssht_sampling_mw_t2theta (2 * L - 2) L < 2 * pi
     \<and> ssht_sampling_mw_t2theta (t + 1) L - ssht_sampling_mw_t2theta t L
         = 2 * pi / (2 * real_of_int L - 1)"
    by simp
qed

section \<open>Band-limits that are not positive\<close>

lemma sdiv2_nonpos: "k \<le> 1 \<Longrightarrow> k sdiv 2 \<le> 0" for k :: int
proof -
  assume "k \<le> 1"
  then consider "k = 1" | "k = 0" | "k < 0" by linarith
  then show ?thesis
  proof cases
    case 3
    then have "0 \<le> \<bar>k\<bar> div 2" by simp
    with 3 show ?thesis by (simp add: signed_divide_int_def sgn_if)
  qed (simp_all add: signed_divide_int_def)
qed

lemma gauleg_loop_done: "m < i \<Longrightarrow> gauleg_loop xm xl n m i x w = Some (x, w)"
  by (subst gauleg_loop.simps) simp

lemma gauleg_nonpos: "n \<le> 0 \<Longrightarrow> gauleg x1 x2 x w n = Some (x, w)"
proof -
  assume "n \<le> 0"
  then have "(n + 1) sdiv 2 \<le> 0" by (intro sdiv2_nonpos) simp
  then show ?thesis
    by (simp add: gauleg_def Let_def gauleg_loop_done)
qed

lemma weight_dh_loop_done: "L \<le> k \<Longrightarrow> weight_dh_loop theta_t L k w = w"
  by (subst weight_dh_loop.simps) simp

lemma acos_loop_done: "L \<le> t \<Longrightarrow> acos_loop L t thetas = thetas"
  by (subst acos_loop.simps) simp

text \<open>
  Claim C8 as stated fails: no function of the source checks its band-limit, and none has
  a way to report an error. With \<open>L = 0\<close>, \<^verbatim>\<open>ssht_sampling_mw_t2theta(0, 0)\<close> returns
  \<open>- pi\<close> and \<^verbatim>\<open>ssht_sampling_mw_p2phi(1, 0)\<close> returns \<open>- 2 pi\<close>: values computed from the
  invalid band-limit.
\<close>

theorem invalid_bandlimit_counterexample:
  "ssht_sampling_mw_t2theta 0 0 = - pi \<and> ssht_sampling_mw_p2phi 1 0 = - (2 * pi)"
  by (simp add: ssht_sampling_mw_t2theta_def ssht_sampling_mw_p2phi_def SSHT_PI_def)

text \<open>
  Claim C8, as the code has it. A band-limit \<open>L \<le> 0\<close> is not detected: each function
  returns what its formula or its loops give. \<^verbatim>\<open>ssht_sampling_mw_t2theta\<close> and
  \<^verbatim>\<open>ssht_sampling_mw_p2phi\<close> return \<open>(2 t + 1) pi / (2 L - 1)\<close> and \<open>2 p pi / (2 L - 1)\<close>,
  negative angles for \<open>t \<ge> 0\<close> and \<open>p > 0\<close>; \<^verbatim>\<open>ssht_sampling_weight_dh\<close> returns \<open>0\<close> for
  \<open>L < 0\<close>, its loop not being entered; \<^verbatim>\<open>ssht_sampling_gl_thetas_weights\<close> returns with
  both buffers as they were.
\<close>

theorem bandlimit_unchecked:
  "L \<le> 0 \<longrightarrow>
     ssht_sampling_mw_t2theta t L = (2 * real_of_int t + 1) * pi / (2 * real_of_int L - 1)
     \<and> (0 \<le> t \<longrightarrow> ssht_sampling_mw_t2theta t L < 0)
     \<and> ssht_sampling_mw_p2phi p L = 2 * real_of_int p * pi / (2 * real_of_int L - 1)
     \<and> (0 < p \<longrightarrow> ssht_sampling_mw_p2phi p L < 0)
     \<and> (L < 0 \<longrightarrow> ssht_sampling_weight_dh theta L = 0)
     \<and> ssht_sampling_gl_thetas_weights thetas weights L = Some (thetas, weights)"
proof (intro impI)
  assume L: "L \<le> 0"
  then have d: "2 * real_of_int L - 1 < 0" by simp
  have t: "ssht_sampling_mw_t2theta t L < 0" if "0 \<le> t"
  proof -
    have "0 < (2 * real_of_int t + 1) * pi" using that by (intro mult_pos_pos) simp_all
    then show ?thesis
      using d by (simp add: ssht_sampling_mw_t2theta_def SSHT_PI_def divide_pos_neg)
  qed
  have p: "ssht_sampling_mw_p2phi p L < 0" if "0 < p"
  proof -
    have "0 < 2 * real_of_int p * pi" using that by (intro mult_pos_pos) simp_all
    then show ?thesis
      using d by (simp add: ssht_sampling_mw_p2phi_def SSHT_PI_def divide_pos_neg)
  qed
  have w: "ssht_sampling_weight_dh theta L = 0" if "L < 0"
    using that by (simp add: ssht_sampling_weight_dh_def weight_dh_loop_done)
  have g: "ssht_sampling_gl_thetas_weights thetas weights L = Some (thetas, weights)"
    using L by (simp add: ssht_sampling_gl_thetas_weights_def gauleg_nonpos acos_loop_done)
  show "ssht_sampling_mw_t2theta t L = (2 * real_of_int t + 1) * pi / (2 * real_of_int L - 1)
     \<and> (0 \<le> t \<longrightarrow> ssht_sampling_mw_t2theta t L < 0)
     \<and> ssht_sampling_mw_p2phi p L = 2 * real_of_int p * pi / (2 * real_of_int L - 1)
     \<and> (0 < p \<longrightarrow> ssht_sampling_mw_p2phi p L < 0)
     \<and> (L < 0 \<longrightarrow> ssht_sampling_weight_dh theta L = 0)
     \<and> ssht_sampling_gl_thetas_weights thetas weights L = Some (thetas, weights)"
    using t p w g by (simp add: ssht_sampling_mw_t2theta_def ssht_sampling_mw_p2phi_def SSHT_PI_def)
qed

text \<open>The theorem at \<open>L = - 1\<close>.\<close>

theorem bandlimit_unchecked_witness:
  "(- 1 :: int) \<le> 0 \<and> (0 :: int) \<le> 0 \<and> (0 :: int) < 1 \<and> (- 1 :: int) < 0
   \<and> ssht_sampling_mw_t2theta 0 (- 1) = - (pi / 3)
   \<and> ssht_sampling_mw_p2phi 1 (- 1) = - (2 * pi / 3)
   \<and> ssht_sampling_weight_dh 1 (- 1) = 0
   \<and> ssht_sampling_gl_thetas_weights (\<lambda>i. 0) (\<lambda>i. 0) (- 1) = Some (\<lambda>i. 0, \<lambda>i. 0)"
  using bandlimit_unchecked [of "- 1" 0 1 1 "\<lambda>i. 0" "\<lambda>i. 0"] by simp

section \<open>The Newton loop of gauleg\<close>

lemma ABS_abs: "ABS x = \<bar>x\<bar>"
  by (simp add: ABS_def)

lemma legendre_loop_done: "n < j \<Longrightarrow> legendre_loop n z j p1 p2 = (p1, p2)"
  by (subst legendre_loop.simps) simp

lemma legendre_loop_step:
  "j \<le> n \<Longrightarrow> legendre_loop n z j p1 p2 =
     legendre_loop n z (j + 1) (((2 * real_of_int j - 1) * z * p1 - (real_of_int j - 1) * p2) / real_of_int j) p1"
  by (subst legendre_loop.simps) (simp add: Let_def)

lemma legendre_1: "legendre_loop 1 z 1 1 0 = (z, 1)"
  by (simp add: legendre_loop_step legendre_loop_done)

lemma newton_step_1: "z * z \<noteq> 1 \<Longrightarrow> newton_step 1 z = (0, z, 1)"
  by (simp add: newton_step_def legendre_1)

lemma newton_loop_exit:
  "newton_step n z = (z', z1, pp) \<Longrightarrow> ABS (z' - z1) \<le> EPS \<Longrightarrow> newton_loop n z = Some (z', pp)"
  by (subst newton_loop.simps) simp

lemma newton_loop_again:
  "newton_step n z = (z', z1, pp) \<Longrightarrow> ABS (z' - z1) > EPS \<Longrightarrow> newton_loop n z = newton_loop n z'"
  by (subst newton_loop.simps) simp

lemma EPS_pos: "0 < EPS"
  by (simp add: EPS_def)

lemma newton_loop_1_zero: "newton_loop 1 0 = Some (0, 1)"
proof -
  have s: "newton_step 1 0 = (0, 0, 1)" by (simp add: newton_step_1)
  have "ABS (0 - 0) \<le> EPS" using EPS_pos by (simp add: ABS_abs)
  with s show ?thesis by (rule newton_loop_exit)
qed

lemma newton_loop_1: "z * z \<noteq> 1 \<Longrightarrow> newton_loop 1 z = Some (0, 1)"
proof -
  assume z: "z * z \<noteq> 1"
  then have s: "newton_step 1 z = (0, z, 1)" by (rule newton_step_1)
  show ?thesis
  proof (cases "ABS (0 - z) > EPS")
    case True
    with s have "newton_loop 1 z = newton_loop 1 0" by (rule newton_loop_again)
    then show ?thesis by (simp add: newton_loop_1_zero)
  next
    case False
    then have "ABS (0 - z) \<le> EPS" by simp
    with s show ?thesis by (rule newton_loop_exit)
  qed
qed

lemma cos_sq_less_1: "0 < a \<Longrightarrow> a < pi \<Longrightarrow> cos a * cos a \<noteq> 1"
proof -
  assume "0 < a" "a < pi"
  then have "0 < sin a" by (rule sin_gt_zero)
  then have "0 < sin a * sin a" by simp
  moreover have "sin a * sin a + cos a * cos a = 1"
    using sin_cos_squared_add [of a] by (simp add: power2_eq_square)
  ultimately show ?thesis by linarith
qed

lemma guess_1_1: "cos (3.141592654 * (real_of_int 1 - 0.25) / (real_of_int 1 + 0.5)) * 
    cos (3.141592654 * (real_of_int 1 - 0.25) / (real_of_int 1 + 0.5)) \<noteq> 1"
proof (rule cos_sq_less_1)
  show "0 < 3.141592654 * (real_of_int 1 - 0.25) / (real_of_int 1 + 0.5)" by simp
  have "3.141592654 * (real_of_int 1 - 0.25) / (real_of_int 1 + 0.5) < (2 :: real)" by simp
  also have "\<dots> \<le> pi" by (rule pi_ge_two)
  finally show "3.141592654 * (real_of_int 1 - 0.25) / (real_of_int 1 + 0.5) < pi" .
qed

lemma gauleg_loop_step:
  "i \<le> m \<Longrightarrow> newton_loop n (cos (3.141592654 * (real_of_int i - 0.25) / (real_of_int n + 0.5))) = Some (z, pp) \<Longrightarrow>
   gauleg_loop xm xl n m i x w =
     gauleg_loop xm xl n m (i + 1)
       (x(i - 1 := xm - xl * z, n + 1 - i - 1 := xm + xl * z))
       (w(i - 1 := 2 * xl / ((1 - z * z) * pp * pp),
          n + 1 - i - 1 := (w(i - 1 := 2 * xl / ((1 - z * z) * pp * pp))) (i - 1)))"
  by (subst gauleg_loop.simps) (simp add: Let_def)

lemma gauleg_1: "gauleg x1 x2 x w 1 = Some (x(0 := (x1 + x2) / 2), w(0 := x2 - x1))"
proof -
  have m: "((1::int) + 1) sdiv 2 = 1" by (simp add: signed_divide_int_def)
  have n: "newton_loop 1 (cos (3.141592654 * (real_of_int 1 - 0.25) / (real_of_int 1 + 0.5))) = Some (0, 1)"
    using guess_1_1 by (rule newton_loop_1)
  have a: "(2 * x2 - 2 * x1) / 2 = x2 - x1" by simp
  show ?thesis
    unfolding gauleg_def Let_def m
    by (subst gauleg_loop_step [OF _ n]) (simp_all add: gauleg_loop_done add.commute a)
qed

text \<open>
  Claim C5. For \<open>n = 1\<close> and any bounds \<open>x1\<close> and \<open>x2\<close>, in particular for \<open>x1 < x2\<close>,
  \<^verbatim>\<open>gauleg(x1, x2, x, w, 1)\<close> returns, having stored the midpoint \<open>(x1 + x2) / 2\<close> in
  \<^verbatim>\<open>x[0]\<close> and the weight \<open>x2 - x1\<close> in \<^verbatim>\<open>w[0]\<close>, and nothing anywhere else.
\<close>

theorem gauleg_single_node:
  "gauleg x1 x2 x w 1 = Some (x(0 := (x1 + x2) / 2), w(0 := x2 - x1))"
  by (rule gauleg_1)

section \<open>The rounded square root\<close>

lemma sq_less_imp_less: "0 \<le> b \<Longrightarrow> a * a < b * b \<Longrightarrow> a < b" for a b :: int
proof (rule ccontr)
  assume b: "0 \<le> b" and l: "a * a < b * b" and n: "\<not> a < b"
  then have "b \<le> a" by simp
  with b have "b * b \<le> a * a" by (intro mult_mono) simp_all
  with l show False by simp
qed

lemma isqrt_bounds:
  "0 \<le> n \<Longrightarrow> 0 \<le> isqrt n \<and> isqrt n * isqrt n \<le> n \<and> n < (isqrt n + 1) * (isqrt n + 1)"
proof (induction n rule: isqrt.induct)
  case (1 n)
  show ?case
  proof (cases "n < 1")
    case True
    with "1.prems" have "n = 0" by simp
    then show ?thesis by (subst (1 2 3 4 5) isqrt.simps) simp
  next
    case False
    define q where "q = n div 4"
    define a where "a = isqrt q"
    have q: "0 \<le> q" "4 * q \<le> n" "n < 4 * q + 4"
      using False unfolding q_def by presburger+
    have ih: "0 \<le> a \<and> a * a \<le> q \<and> q < (a + 1) * (a + 1)"
      unfolding a_def q_def using False "1.prems" by (intro "1.IH") simp_all
    have e1: "(a + 1) * (a + 1) = a * a + 2 * a + 1" by (simp add: algebra_simps)
    have e2: "(2 * a + 1) * (2 * a + 1) = 4 * (a * a) + 4 * a + 1" by (simp add: algebra_simps)
    have e3: "(2 * a + 1 + 1) * (2 * a + 1 + 1) = 4 * (a * a) + 8 * a + 4" by (simp add: algebra_simps)
    have e4: "2 * a * (2 * a) = 4 * (a * a)" by simp
    have s: "isqrt n = (if (2 * a + 1) * (2 * a + 1) \<le> n then 2 * a + 1 else 2 * a)"
      using False by (subst isqrt.simps) (simp add: Let_def a_def q_def)
    show ?thesis
    proof (cases "(2 * a + 1) * (2 * a + 1) \<le> n")
      case True
      then have r: "isqrt n = 2 * a + 1" using s by simp
      from ih q have "n < 4 * (a * a) + 8 * a + 4" unfolding e1 by linarith
      with True ih show ?thesis unfolding r e3 by simp
    next
      case False
      then have r: "isqrt n = 2 * a" using s by simp
      from ih q have "4 * (a * a) \<le> n" by linarith
      with False ih show ?thesis unfolding r e4 by simp
    qed
  qed
qed

lemma isqrt_unique:
  assumes "0 \<le> k" "k * k \<le> n" "n < (k + 1) * (k + 1)"
  shows "isqrt n = k"
proof -
  have "0 \<le> k * k" by simp
  with assms have n: "0 \<le> n" by linarith
  from isqrt_bounds [OF n] have b: "0 \<le> isqrt n" "isqrt n * isqrt n \<le> n"
    "n < (isqrt n + 1) * (isqrt n + 1)" by simp_all
  have k1: "0 \<le> k + 1" and r1: "0 \<le> isqrt n + 1" using assms(1) b(1) by simp_all
  have "isqrt n * isqrt n < (k + 1) * (k + 1)" using b(2) assms(3) by linarith
  with k1 have "isqrt n < k + 1" by (rule sq_less_imp_less)
  moreover have "k * k < (isqrt n + 1) * (isqrt n + 1)" using b(3) assms(2) by linarith
  with r1 have "k < isqrt n + 1" by (rule sq_less_imp_less)
  ultimately show ?thesis by simp
qed

lemma ilog4_bounds: "1 \<le> n \<Longrightarrow> 4 ^ ilog4 n \<le> n \<and> n < 4 * 4 ^ ilog4 n"
proof (induction n rule: ilog4.induct)
  case (1 n)
  show ?case
  proof (cases "n < 4")
    case True
    with "1.prems" show ?thesis by (subst (1 2) ilog4.simps) simp
  next
    case False
    define q where "q = n div 4"
    have q: "1 \<le> q" "4 * q \<le> n" "n < 4 * q + 4"
      using False unfolding q_def by presburger+
    have ih: "4 ^ ilog4 q \<le> q \<and> q < 4 * 4 ^ ilog4 q"
      unfolding q_def using False q(1) [unfolded q_def] by (intro "1.IH") simp_all
    have s: "ilog4 n = Suc (ilog4 q)"
      using False by (subst ilog4.simps) (simp add: q_def)
    from ih q show ?thesis unfolding s by simp
  qed
qed

lemma ilog4_small:
  assumes "1 \<le> n" "n < 2 ^ 31"
  shows "ilog4 n \<le> 15"
proof -
  have "(4::int) ^ ilog4 n \<le> n" using ilog4_bounds [OF assms(1)] by simp
  also have "n < 4 ^ 16" using assms(2) by simp
  finally have "ilog4 n < 16" by (rule power_less_imp_less_exp [rotated]) simp
  then show ?thesis by simp
qed

lemma round_root_between:
  fixes k n P N r M :: int
  assumes k: "0 \<le> k" "k * k \<le> n" "n < (k + 1) * (k + 1)"
    and P: "2 * (k + 1) \<le> P"
    and N: "N = n * (P * P)"
    and r: "0 \<le> r" "r * r \<le> N" "N < (r + 1) * (r + 1)"
    and M: "M = r \<or> M = r + 1"
  shows "k * P \<le> M \<and> M < (k + 1) * P"
proof -
  have Ppos: "0 < P" using k(1) P by simp
  have "k * k * (P * P) \<le> n * (P * P)"
    using k(2) Ppos by (intro mult_right_mono) simp_all
  then have "(k * P) * (k * P) \<le> N" unfolding N by (simp add: mult_ac)
  with r(3) have "(k * P) * (k * P) < (r + 1) * (r + 1)" by linarith
  with r(1) have "k * P < r + 1" by (intro sq_less_imp_less [of "r + 1" "k * P"]) simp_all
  then have low: "k * P \<le> M" using M by auto
  define T where "T = (k + 1) * P - 1"
  have "1 * 1 \<le> (k + 1) * P" using k(1) Ppos by (intro mult_mono) simp_all
  then have Tpos: "0 \<le> T" unfolding T_def by simp
  have n1: "n + 1 \<le> (k + 1) * (k + 1)" using k(3) by simp
  have "(n + 1) * (P * P) \<le> (k + 1) * (k + 1) * (P * P)"
    using n1 Ppos by (intro mult_right_mono) simp_all
  then have a: "N + P * P \<le> ((k + 1) * P) * ((k + 1) * P)"
    unfolding N by (simp add: algebra_simps)
  have "2 * (k + 1) * P \<le> P * P" using P Ppos by (intro mult_right_mono) simp_all
  then have b: "2 * ((k + 1) * P) \<le> P * P" by (simp add: mult_ac)
  have c: "T * T = ((k + 1) * P) * ((k + 1) * P) - 2 * ((k + 1) * P) + 1"
    unfolding T_def by (simp add: algebra_simps)
  from a b have "N < T * T" unfolding c by linarith
  with r(2) have "r * r < T * T" by linarith
  with Tpos have "r < T" by (rule sq_less_imp_less)
  then have "M < (k + 1) * P" using M unfolding T_def by auto
  with low show ?thesis by simp
qed

lemma floor_double_sqrt:
  assumes k: "0 \<le> k" "k * k \<le> n" "n < (k + 1) * (k + 1)" and n: "n < 2 ^ 31"
  shows "\<lfloor>double_sqrt n\<rfloor> = k"
proof (cases "n = 0")
  case True
  have "k = 0"
  proof (rule ccontr)
    assume "k \<noteq> 0"
    with k(1) have "1 \<le> k" by simp
    then have "1 * 1 \<le> k * k" by (intro mult_mono) simp_all
    with k(2) True show False by simp
  qed
  with True show ?thesis by (simp add: double_sqrt_def)
next
  case False
  have "0 \<le> k * k" by simp
  with k(2) False have n1: "1 \<le> n" by linarith
  define s where "s = 52 - ilog4 n"
  define P :: int where "P = 2 ^ s"
  define N where "N = n * 4 ^ s"
  define r where "r = isqrt N"
  define M where "M = (if N - r * r \<le> r then r else r + 1)"
  have s: "37 \<le> s" using ilog4_small [OF n1 n] unfolding s_def by simp
  have "(2::int) ^ 37 \<le> 2 ^ s" using s by (intro power_increasing) simp_all
  then have P37: "2 ^ 37 \<le> P" unfolding P_def .
  have "(4::int) ^ s = (2 * 2) ^ s" by simp
  also have "\<dots> = 2 ^ s * 2 ^ s" by (rule power_mult_distrib)
  finally have NP: "N = n * (P * P)"
    unfolding N_def P_def by simp
  have Npos: "0 \<le> N" unfolding N_def using n1 by simp
  have rb: "0 \<le> r" "r * r \<le> N" "N < (r + 1) * (r + 1)"
    using isqrt_bounds [OF Npos] unfolding r_def by simp_all
  have Mr: "M = r \<or> M = r + 1" unfolding M_def by simp
  have "k * k < 2 ^ 16 * 2 ^ 16" using k(2) n by simp
  then have "k < 2 ^ 16" by (intro sq_less_imp_less [of "2 ^ 16" k]) simp_all
  with P37 have kP: "2 * (k + 1) \<le> P" by simp
  have b: "k * P \<le> M \<and> M < (k + 1) * P"
    using k kP NP rb Mr by (rule round_root_between)
  have Ppos: "0 < real_of_int P" using P37 by simp
  have d: "double_sqrt n = real_of_int M / real_of_int P"
    using False by (simp add: double_sqrt_def Let_def M_def r_def N_def s_def P_def)
  have "real_of_int (k * P) \<le> real_of_int M" using b by (simp only: of_int_le_iff)
  then have lo: "real_of_int k \<le> real_of_int M / real_of_int P"
    using Ppos by (simp add: pos_le_divide_eq)
  have "real_of_int M < real_of_int ((k + 1) * P)" using b by (simp only: of_int_less_iff)
  then have hi: "real_of_int M / real_of_int P < real_of_int k + 1"
    using Ppos by (simp add: pos_divide_less_eq)
  from lo hi show ?thesis unfolding d by (simp add: floor_eq_iff)
qed

section \<open>The harmonic index and its inverse\<close>

lemma sint_word_of_int32:
  "- (2 ^ 31) \<le> k \<Longrightarrow> k < 2 ^ 31 \<Longrightarrow> sint (word_of_int k :: c_int) = k"
  by (simp add: sint_sbintrunc' signed_take_bit_int_eq_self)

lemma elm2ind_sint:
  "ssht_sampling_elm2ind el m = word_of_int (sint el * sint el + sint el + sint m)"
  by (simp add: ssht_sampling_elm2ind_def)

lemma ind2elm_root:
  assumes i: "0 \<le> sint ind" and k: "0 \<le> k" "k * k \<le> sint ind" "sint ind < (k + 1) * (k + 1)"
  shows "ssht_sampling_ind2elm ind = Some (word_of_int k, ind - word_of_int k * word_of_int k - word_of_int k)"
proof -
  have n: "sint ind < 2 ^ 31" using sint_range32 [of ind] by simp
  have f: "\<lfloor>double_sqrt (sint ind)\<rfloor> = k" using k n by (rule floor_double_sqrt)
  have "real_of_int k \<le> double_sqrt (sint ind)"
    using of_int_floor_le [of "double_sqrt (sint ind)"] unfolding f .
  with k(1) have "0 \<le> double_sqrt (sint ind)" by simp
  then have "double_to_int (double_sqrt (sint ind)) = word_of_int k"
    by (simp add: double_to_int_def f)
  with i show ?thesis by (simp add: ssht_sampling_ind2elm_def Let_def)
qed

lemma square_step: "(k + 1) * (k + 1) = k * k + 2 * k + 1" for k :: int
  by (simp add: algebra_simps)

text \<open>
  Claim C1, as the code has it. For every \<open>el \<ge> 0\<close> and \<open>m\<close> with \<open>- el \<le> m \<le> el\<close> whose
  index \<open>el * el + el + m\<close> fits an \<^verbatim>\<open>int\<close>, \<^verbatim>\<open>ssht_sampling_ind2elm\<close> applied to
  \<^verbatim>\<open>ssht_sampling_elm2ind(el, m)\<close> returns exactly \<open>(el, m)\<close>; and for every \<^verbatim>\<open>int\<close>
  \<open>ind \<ge> 0\<close>, \<^verbatim>\<open>ssht_sampling_ind2elm(ind)\<close> returns a pair \<open>(el, m)\<close> with \<open>el \<ge> 0\<close> and
  \<open>- el \<le> m \<le> el\<close> that \<^verbatim>\<open>ssht_sampling_elm2ind\<close> takes back to \<open>ind\<close>. The degree is read
  off the correctly rounded \<^verbatim>\<open>double\<close> square root, which never rounds across an integer
  for a 32-bit argument.
\<close>

theorem elm2ind_ind2elm_inverse:
  "(0 \<le> sint el \<and> - sint el \<le> sint m \<and> sint m \<le> sint el
      \<and> sint el * sint el + sint el + sint m < 2 ^ 31 \<longrightarrow>
      ssht_sampling_ind2elm (ssht_sampling_elm2ind el m) = Some (el, m))
   \<and> (0 \<le> sint ind \<longrightarrow>
        (\<exists>el' m'. ssht_sampling_ind2elm ind = Some (el', m')
           \<and> ssht_sampling_elm2ind el' m' = ind
           \<and> 0 \<le> sint el' \<and> - sint el' \<le> sint m' \<and> sint m' \<le> sint el'))"
proof (intro conjI impI)
  assume a: "0 \<le> sint el \<and> - sint el \<le> sint m \<and> sint m \<le> sint el
      \<and> sint el * sint el + sint el + sint m < 2 ^ 31"
  define I where "I = sint el * sint el + sint el + sint m"
  have "0 \<le> sint el * sint el" by simp
  with a have I0: "0 \<le> I" unfolding I_def by linarith
  then have s: "sint (ssht_sampling_elm2ind el m) = I"
    using a unfolding elm2ind_sint I_def [symmetric] by (intro sint_word_of_int32) simp_all
  have "ssht_sampling_ind2elm (ssht_sampling_elm2ind el m)
      = Some (word_of_int (sint el),
          ssht_sampling_elm2ind el m - word_of_int (sint el) * word_of_int (sint el) - word_of_int (sint el))"
  proof (rule ind2elm_root)
    show "0 \<le> sint (ssht_sampling_elm2ind el m)" using I0 s by simp
    show "0 \<le> sint el" using a by simp
    show "sint el * sint el \<le> sint (ssht_sampling_elm2ind el m)"
      using a unfolding s I_def by linarith
    show "sint (ssht_sampling_elm2ind el m) < (sint el + 1) * (sint el + 1)"
      using a unfolding s I_def square_step by linarith
  qed
  then show "ssht_sampling_ind2elm (ssht_sampling_elm2ind el m) = Some (el, m)"
    by (simp add: ssht_sampling_elm2ind_def)
next
  assume i: "0 \<le> sint ind"
  define k where "k = isqrt (sint ind)"
  have k: "0 \<le> k" "k * k \<le> sint ind" "sint ind < (k + 1) * (k + 1)"
    using isqrt_bounds [OF i] unfolding k_def by simp_all
  have n: "sint ind < 2 ^ 31" using sint_range32 [of ind] by simp
  have "k * k < 2 ^ 16 * 2 ^ 16" using k(2) n by simp
  then have k16: "k < 2 ^ 16" by (intro sq_less_imp_less [of "2 ^ 16" k]) simp_all
  define el' :: c_int where "el' = word_of_int k"
  define m' :: c_int where "m' = ind - el' * el' - el'"
  have r: "ssht_sampling_ind2elm ind = Some (el', m')"
    unfolding el'_def m'_def using i k by (rule ind2elm_root)
  have e: "ssht_sampling_elm2ind el' m' = ind"
    by (simp add: ssht_sampling_elm2ind_def m'_def)
  have sel: "sint el' = k"
    unfolding el'_def using k(1) k16 by (intro sint_word_of_int32) simp_all
  have "m' = word_of_int (sint ind - k * k - k)"
    unfolding m'_def el'_def by simp
  moreover have "- k \<le> sint ind - k * k - k" "sint ind - k * k - k \<le> k"
    using k unfolding square_step by linarith+
  ultimately have sm: "sint m' = sint ind - k * k - k"
    using k(1) k16 by (simp only:) (intro sint_word_of_int32, simp_all)
  have "0 \<le> sint el' \<and> - sint el' \<le> sint m' \<and> sint m' \<le> sint el'"
    using k unfolding sel sm square_step by linarith
  with r e show "\<exists>el' m'. ssht_sampling_ind2elm ind = Some (el', m')
           \<and> ssht_sampling_elm2ind el' m' = ind
           \<and> 0 \<le> sint el' \<and> - sint el' \<le> sint m' \<and> sint m' \<le> sint el'"
    by blast
qed

text \<open>The theorem at \<open>(el, m) = (2, 1)\<close> and at \<open>ind = 7\<close>.\<close>

theorem elm2ind_ind2elm_inverse_witness:
  "0 \<le> sint (2 :: c_int) \<and> - sint (2 :: c_int) \<le> sint (1 :: c_int) \<and> sint (1 :: c_int) \<le> sint (2 :: c_int)
   \<and> sint (2 :: c_int) * sint (2 :: c_int) + sint (2 :: c_int) + sint (1 :: c_int) < 2 ^ 31
   \<and> ssht_sampling_ind2elm (ssht_sampling_elm2ind 2 1) = Some (2, 1)
   \<and> 0 \<le> sint (7 :: c_int)
   \<and> (\<exists>el' m'. ssht_sampling_ind2elm 7 = Some (el', m')
           \<and> ssht_sampling_elm2ind el' m' = 7
           \<and> 0 \<le> sint el' \<and> - sint el' \<le> sint m' \<and> sint m' \<le> sint el')"
  using elm2ind_ind2elm_inverse [of 2 1 7] by simp

text \<open>
  Claim C1 as stated, for every \<open>el \<ge> 0\<close>, fails where the index leaves the range of
  \<^verbatim>\<open>int\<close>: for \<open>(el, m) = (50000, 0)\<close> the sum \<open>50000 * 50000 + 50000\<close> wraps to a negative
  \<^verbatim>\<open>int\<close>, and \<^verbatim>\<open>ssht_sampling_ind2elm\<close> does not give \<open>(50000, 0)\<close> back.
\<close>

theorem elm2ind_overflow_counterexample:
  "0 \<le> sint (50000 :: c_int) \<and> - sint (50000 :: c_int) \<le> sint (0 :: c_int)
   \<and> sint (0 :: c_int) \<le> sint (50000 :: c_int)
   \<and> ssht_sampling_ind2elm (ssht_sampling_elm2ind 50000 0) \<noteq> Some (50000, 0)"
  by (simp add: ssht_sampling_elm2ind_def ssht_sampling_ind2elm_def)

section \<open>Bounds on pi and on the cosine\<close>

text \<open>
  The initial guess of the Newton loop is the cosine of a multiple of the literal
  \<^verbatim>\<open>3.141592654\<close>, which is not pi. Where a proof has to tell the two apart it uses
  Machin's formula with partial sums of the arctangent series.
\<close>

lemma arctan_series_bounds:
  fixes x :: real
  assumes "0 \<le> x" "x \<le> 1"
  shows "(\<Sum>i<2 * n. (- 1) ^ i * (1 / real (i * 2 + 1) * x ^ (i * 2 + 1))) \<le> arctan x"
    and "arctan x \<le> (\<Sum>i<2 * n + 1. (- 1) ^ i * (1 / real (i * 2 + 1) * x ^ (i * 2 + 1)))"
proof -
  let ?a = "\<lambda>n. 1 / real (n * 2 + 1) * x ^ (n * 2 + 1)"
  have ax: "\<bar>x\<bar> \<le> 1" using assms by simp
  have z: "?a \<longlonglongrightarrow> 0" using ax by (rule zeroseq_arctan_series)
  have p: "0 \<le> ?a n" for n using assms by simp
  have m: "?a (Suc n) \<le> ?a n" for n
  proof -
    have "x ^ (Suc n * 2 + 1) \<le> x ^ (n * 2 + 1)"
      using assms by (intro power_decreasing) simp_all
    moreover have "1 / real (Suc n * 2 + 1) \<le> 1 / real (n * 2 + 1)"
      by (simp add: field_simps)
    ultimately show ?thesis
      using assms by (intro mult_mono) simp_all
  qed
  have s: "arctan x = (\<Sum>k. (- 1) ^ k * ?a k)" using ax by (rule arctan_series)
  show "(\<Sum>i<2 * n. (- 1) ^ i * ?a i) \<le> arctan x"
    unfolding s using z p m by (rule summable_Leibniz'(2))
  show "arctan x \<le> (\<Sum>i<2 * n + 1. (- 1) ^ i * ?a i)"
    unfolding s using z p m by (rule summable_Leibniz'(4))
qed

lemma pi_upper: "pi < 3.141592654"
proof -
  have a: "arctan (1 / 5) \<le> (\<Sum>i<2 * 3 + 1. (- 1) ^ i * (1 / real (i * 2 + 1) * (1 / 5) ^ (i * 2 + 1)))"
    by (rule arctan_series_bounds(2)) simp_all
  have b: "(\<Sum>i<2 * 1. (- 1) ^ i * (1 / real (i * 2 + 1) * (1 / 239) ^ (i * 2 + 1))) \<le> arctan (1 / 239)"
    by (rule arctan_series_bounds(1)) simp_all
  have "pi = 16 * arctan (1 / 5) - 4 * arctan (1 / 239)"
    using machin by simp
  also have "\<dots> \<le> 16 * (\<Sum>i<2 * 3 + 1. (- 1) ^ i * (1 / real (i * 2 + 1) * (1 / 5) ^ (i * 2 + 1)))
      - 4 * (\<Sum>i<2 * 1. (- 1) ^ i * (1 / real (i * 2 + 1) * (1 / 239) ^ (i * 2 + 1)))"
    using a b by linarith
  also have "\<dots> < 3.141592654"
    by (simp add: lessThan_Suc eval_nat_numeral)
  finally show ?thesis .
qed

lemma pi_lower: "3.14 < pi"
proof -
  have a: "(\<Sum>i<2 * 1. (- 1) ^ i * (1 / real (i * 2 + 1) * (1 / 5) ^ (i * 2 + 1))) \<le> arctan (1 / 5)"
    by (rule arctan_series_bounds(1)) simp_all
  have b: "arctan (1 / 239) \<le> (\<Sum>i<2 * 0 + 1. (- 1) ^ i * (1 / real (i * 2 + 1) * (1 / 239) ^ (i * 2 + 1)))"
    by (rule arctan_series_bounds(2)) simp_all
  have "3.14 < 16 * (\<Sum>i<2 * 1. (- 1) ^ i * (1 / real (i * 2 + 1) * (1 / 5) ^ (i * 2 + 1)))
      - 4 * (\<Sum>i<2 * 0 + 1. (- 1) ^ i * (1 / real (i * 2 + 1) * (1 / 239) ^ (i * 2 + 1)))"
    by (simp add: lessThan_Suc eval_nat_numeral)
  also have "\<dots> \<le> 16 * arctan (1 / 5) - 4 * arctan (1 / 239)"
    using a b by linarith
  also have "\<dots> = pi"
    using machin by simp
  finally show ?thesis .
qed

text \<open>The same with 34 digits, for the roundings that are decided near a tie.\<close>

lemma pi_upper_34: "pi < 3.141592653589793238462643383279540"
proof -
  have a: "arctan (1 / 5) \<le> (\<Sum>i<2 * 12 + 1. (- 1) ^ i * (1 / real (i * 2 + 1) * (1 / 5) ^ (i * 2 + 1)))"
    by (rule arctan_series_bounds(2)) simp_all
  have b: "(\<Sum>i<2 * 3. (- 1) ^ i * (1 / real (i * 2 + 1) * (1 / 239) ^ (i * 2 + 1))) \<le> arctan (1 / 239)"
    by (rule arctan_series_bounds(1)) simp_all
  have "pi = 16 * arctan (1 / 5) - 4 * arctan (1 / 239)"
    using machin by simp
  also have "\<dots> \<le> 16 * (\<Sum>i<2 * 12 + 1. (- 1) ^ i * (1 / real (i * 2 + 1) * (1 / 5) ^ (i * 2 + 1)))
      - 4 * (\<Sum>i<2 * 3. (- 1) ^ i * (1 / real (i * 2 + 1) * (1 / 239) ^ (i * 2 + 1)))"
    using a b by linarith
  also have "\<dots> < 3.141592653589793238462643383279540"
    by (simp add: lessThan_Suc eval_nat_numeral)
  finally show ?thesis .
qed

lemma pi_lower_34: "3.141592653589793238462643383279502 < pi"
proof -
  have a: "(\<Sum>i<2 * 12. (- 1) ^ i * (1 / real (i * 2 + 1) * (1 / 5) ^ (i * 2 + 1))) \<le> arctan (1 / 5)"
    by (rule arctan_series_bounds(1)) simp_all
  have b: "arctan (1 / 239) \<le> (\<Sum>i<2 * 3 + 1. (- 1) ^ i * (1 / real (i * 2 + 1) * (1 / 239) ^ (i * 2 + 1)))"
    by (rule arctan_series_bounds(2)) simp_all
  have "3.141592653589793238462643383279502 < 16 * (\<Sum>i<2 * 12. (- 1) ^ i * (1 / real (i * 2 + 1) * (1 / 5) ^ (i * 2 + 1)))
      - 4 * (\<Sum>i<2 * 3 + 1. (- 1) ^ i * (1 / real (i * 2 + 1) * (1 / 239) ^ (i * 2 + 1)))"
    by (simp add: lessThan_Suc eval_nat_numeral)
  also have "\<dots> \<le> 16 * arctan (1 / 5) - 4 * arctan (1 / 239)"
    using a b by linarith
  also have "\<dots> = pi"
    using machin by simp
  finally show ?thesis .
qed

lemma cos_lower_6: "1 - x\<^sup>2 / 2 + x ^ 4 / 24 - x ^ 6 / 720 \<le> cos x" for x :: real
proof -
  obtain t where t: "cos x = (\<Sum>m<6. cos_coeff m * x ^ m) + (cos (t + 1 / 2 * real 6 * pi) / fact 6) * x ^ 6"
    using Maclaurin_cos_expansion [of x 6] by blast
  have e: "{..<6::nat} = {0, 1, 2, 3, 4, 5}" by auto
  have c: "cos_coeff 0 = 1" "cos_coeff (Suc 0) = 0" "cos_coeff 2 = - 1 / 2" "cos_coeff 3 = 0"
    "cos_coeff 4 = 1 / 24" "cos_coeff 5 = 0"
    by (simp_all add: cos_coeff_def fact_numeral)
  have s: "(\<Sum>m<6. cos_coeff m * x ^ m) = 1 - x\<^sup>2 / 2 + x ^ 4 / 24"
    unfolding e by (simp add: c)
  have "- 1 \<le> cos (t + 1 / 2 * real 6 * pi)" by (rule cos_ge_minus_one)
  moreover have "0 \<le> x ^ 6 / 720" by simp
  ultimately have "(- 1) * (x ^ 6 / 720) \<le> cos (t + 1 / 2 * real 6 * pi) * (x ^ 6 / 720)"
    by (rule mult_right_mono)
  then have "- (x ^ 6 / 720) \<le> cos (t + 1 / 2 * real 6 * pi) * (x ^ 6 / 720)"
    by simp
  moreover have "(cos (t + 1 / 2 * real 6 * pi) / fact 6) * x ^ 6 = cos (t + 1 / 2 * real 6 * pi) * (x ^ 6 / 720)"
    by (simp add: fact_numeral)
  ultimately show ?thesis unfolding t s by linarith
qed

section \<open>The Gauss-Legendre colatitudes and weights\<close>

lemma multiple_of_EPS: "\<exists>K. y \<le> real K * EPS"
proof -
  obtain n where "y < real n * EPS"
    using reals_Archimedean3 [OF EPS_pos] by blast
  then have "y \<le> real n * EPS" by (rule less_imp_le)
  then show ?thesis ..
qed

text \<open>
  The loop over \<^verbatim>\<open>thetas\<close> replaces the cells \<open>0, \<dots>, L - 1\<close> by their arccosine and
  touches no other cell.
\<close>

lemma acos_loop_map:
  "acos_loop L t thetas = (\<lambda>i. if t \<le> i \<and> i \<le> L - 1 then arccos (thetas i) else thetas i)"
proof (induction "nat (L - t)" arbitrary: t thetas)
  case 0
  then have "L \<le> t" by simp
  then show ?case by (subst acos_loop.simps) auto
next
  case (Suc d)
  then have t: "t \<le> L - 1" and d: "d = nat (L - (t + 1))" by simp_all
  have "acos_loop L t thetas = acos_loop L (t + 1) (thetas(t := arccos (thetas t)))"
    using t by (subst acos_loop.simps) simp
  also have "\<dots> = (\<lambda>i. if t + 1 \<le> i \<and> i \<le> L - 1
      then arccos ((thetas(t := arccos (thetas t))) i) else (thetas(t := arccos (thetas t))) i)"
    using d by (rule Suc.hyps(1))
  also have "\<dots> = (\<lambda>i. if t \<le> i \<and> i \<le> L - 1 then arccos (thetas i) else thetas i)"
    using t by (auto simp: fun_eq_iff)
  finally show ?case .
qed

text \<open>
  For \<open>n = 4\<close> the inner loop computes \<open>(35 z\<^sup>4 - 30 z\<^sup>2 + 3) / 8\<close> and the derivative is
  \<open>5 z (7 z\<^sup>2 - 3) / 2\<close>. With \<open>u = z\<^sup>2\<close>, \<open>D = 7 u - 3\<close>, \<open>\<rho> = 35 u\<^sup>2 - 30 u + 3\<close> and
  \<open>q = \<rho> / (40 u D)\<close>, a pass of the Newton loop takes \<open>z\<close> to \<open>z (1 - 2 q)\<close>, and \<open>\<rho>\<close> at
  the new point is \<open>40 u q\<^sup>2 (D + 14 u (1 - q)\<^sup>2)\<close>. So the values stay on the side of the
  root where they start and decrease: to the right of the larger root (\<open>\<rho> \<ge> 0\<close>,
  \<open>u \<ge> 3 / 7\<close>) from the first guess, to the right of the smaller one (\<open>\<rho> \<le> 0\<close>,
  \<open>u \<le> 1 / 7\<close>) from the second.
\<close>

lemma div_8_2: "a / 8 / (b / 2) = a / (4 * b)" for a b :: real
  by simp

lemma legendre_4:
  "legendre_loop 4 z 1 1 0 = ((35 * z ^ 4 - 30 * z\<^sup>2 + 3) / 8, (5 * z ^ 3 - 3 * z) / 2)"
  by (simp add: legendre_loop_step legendre_loop_done field_simps power4_eq_xxxx power3_eq_cube power2_eq_square)

lemma newton_step_4:
  assumes "z\<^sup>2 \<noteq> 1" "z \<noteq> 0" "7 * z\<^sup>2 \<noteq> 3"
  shows "newton_step 4 z =
    (z - (35 * z ^ 4 - 30 * z\<^sup>2 + 3) / (20 * z * (7 * z\<^sup>2 - 3)), z, 5 * z * (7 * z\<^sup>2 - 3) / 2)"
proof -
  have d1: "z * z - 1 \<noteq> 0" using assms(1) by (simp add: power2_eq_square)
  have "z * ((35 * z ^ 4 - 30 * z\<^sup>2 + 3) / 8) - (5 * z ^ 3 - 3 * z) / 2
      = (5 * z * (7 * z\<^sup>2 - 3) / 2 / 4) * (z * z - 1)"
    by (simp add: field_simps power4_eq_xxxx power3_eq_cube power2_eq_square)
  then have "(z * ((35 * z ^ 4 - 30 * z\<^sup>2 + 3) / 8) - (5 * z ^ 3 - 3 * z) / 2) / (z * z - 1)
      = 5 * z * (7 * z\<^sup>2 - 3) / 2 / 4"
    using d1 by (simp only: nonzero_mult_div_cancel_right not_False_eq_True)
  then have pp: "real_of_int 4 * (z * ((35 * z ^ 4 - 30 * z\<^sup>2 + 3) / 8) - (5 * z ^ 3 - 3 * z) / 2) / (z * z - 1)
      = 5 * z * (7 * z\<^sup>2 - 3) / 2"
    by simp
  have "4 * (5 * z * (7 * z\<^sup>2 - 3)) = 20 * z * (7 * z\<^sup>2 - 3)" by simp
  then have q: "(35 * z ^ 4 - 30 * z\<^sup>2 + 3) / 8 / (5 * z * (7 * z\<^sup>2 - 3) / 2)
      = (35 * z ^ 4 - 30 * z\<^sup>2 + 3) / (20 * z * (7 * z\<^sup>2 - 3))"
    by (simp only: div_8_2)
  show ?thesis
    unfolding newton_step_def legendre_4 Let_def prod.case pp q ..
qed

lemma newton_4_algebra:
  fixes z u D \<rho> q r :: real
  assumes z: "0 < z" and u: "u = z\<^sup>2" and D: "D = 7 * u - 3" and D0: "D \<noteq> 0"
    and rho: "\<rho> = 35 * u\<^sup>2 - 30 * u + 3"
    and q: "q = \<rho> / (40 * u * D)"
    and r: "r = z - (35 * z ^ 4 - 30 * z\<^sup>2 + 3) / (20 * z * (7 * z\<^sup>2 - 3))"
  shows "r = z * (1 - 2 * q)"
    and "r\<^sup>2 = u * (1 - 2 * q)\<^sup>2"
    and "35 * (r\<^sup>2)\<^sup>2 - 30 * r\<^sup>2 + 3 = 40 * u * q\<^sup>2 * (D + 14 * u * (1 - q)\<^sup>2)"
    and "\<rho> = 20 * z * D * (z - r)"
    and "20 * u * D - \<rho> = 3 * \<rho> + 60 * u - 12"
    and "\<rho> = 40 * u * D * q"
proof -
  have u0: "0 < u" unfolding u using z by simp
  have z4: "z ^ 4 = u\<^sup>2" unfolding u by simp
  have r': "r = z - \<rho> / (20 * z * D)" unfolding r rho D z4 u ..
  have z2: "2 * z \<noteq> 0" using z by simp
  have "2 * q * z = (2 * z) * \<rho> / ((2 * z) * (20 * z * D))"
    unfolding q u by (simp add: power2_eq_square)
  also have "\<dots> = \<rho> / (20 * z * D)"
    using z2 by (rule mult_divide_mult_cancel_left)
  finally have qz: "2 * q * z = \<rho> / (20 * z * D)" .
  show rq: "r = z * (1 - 2 * q)" unfolding r' qz [symmetric] by (simp add: algebra_simps)
  show r2: "r\<^sup>2 = u * (1 - 2 * q)\<^sup>2" unfolding rq u by (simp add: power_mult_distrib)
  show rhoq: "\<rho> = 40 * u * D * q"
    unfolding q using u0 D0 by simp
  show "\<rho> = 20 * z * D * (z - r)"
  proof -
    have "20 * z * D * (z - r) = 20 * z * D * (2 * q * z)" unfolding rq by (simp add: algebra_simps)
    also have "\<dots> = 40 * (z * z) * D * q" by simp
    also have "\<dots> = \<rho>" unfolding rhoq u power2_eq_square ..
    finally show ?thesis ..
  qed
  show "20 * u * D - \<rho> = 3 * \<rho> + 60 * u - 12"
    unfolding rho D by (simp add: algebra_simps power2_eq_square)
  define e where "e = - (4 * u * q * (1 - q))"
  have ue: "r\<^sup>2 = u + e" unfolding r2 e_def by (simp add: algebra_simps power2_eq_square)
  have "35 * (u + e)\<^sup>2 - 30 * (u + e) + 3 = \<rho> + 10 * D * e + 35 * e\<^sup>2"
    unfolding rho D by (simp add: algebra_simps power2_eq_square)
  also have "\<rho> + 10 * D * e = 40 * u * D * q\<^sup>2"
  proof -
    have "\<rho> + 10 * D * e = 40 * u * D * q + 10 * D * e" using rhoq by simp
    also have "\<dots> = 40 * u * D * q\<^sup>2" unfolding e_def by (simp add: algebra_simps power2_eq_square)
    finally show ?thesis .
  qed
  also have "35 * e\<^sup>2 = 40 * u * q\<^sup>2 * (14 * u * (1 - q)\<^sup>2)"
    unfolding e_def by (simp add: algebra_simps power2_eq_square)
  finally show "35 * (r\<^sup>2)\<^sup>2 - 30 * r\<^sup>2 + 3 = 40 * u * q\<^sup>2 * (D + 14 * u * (1 - q)\<^sup>2)"
    unfolding ue by (simp add: algebra_simps)
qed

lemma newton_4_A_step:
  fixes z :: real
  assumes z: "0 < z" "z < 1" "3 / 7 \<le> z\<^sup>2" "0 \<le> 35 * (z\<^sup>2)\<^sup>2 - 30 * z\<^sup>2 + 3"
  defines "r \<equiv> z - (35 * z ^ 4 - 30 * z\<^sup>2 + 3) / (20 * z * (7 * z\<^sup>2 - 3))"
  shows "newton_step 4 z = (r, z, 5 * z * (7 * z\<^sup>2 - 3) / 2)"
    and "0 < r" and "r \<le> z" and "3 / 7 \<le> r\<^sup>2" and "0 \<le> 35 * (r\<^sup>2)\<^sup>2 - 30 * r\<^sup>2 + 3"
    and "35 * (z\<^sup>2)\<^sup>2 - 30 * z\<^sup>2 + 3 = 20 * z * (7 * z\<^sup>2 - 3) * (z - r)"
proof -
  define u where "u = z\<^sup>2"
  define D where "D = 7 * u - 3"
  define \<rho> where "\<rho> = 35 * u\<^sup>2 - 30 * u + 3"
  define q where "q = \<rho> / (40 * u * D)"
  have u0: "0 < u" unfolding u_def using z(1) by simp
  have u37: "3 / 7 \<le> u" and rho0: "0 \<le> \<rho>" using z(3,4) unfolding u_def \<rho>_def by simp_all
  have "u \<noteq> 3 / 7"
  proof
    assume e: "u = 3 / 7"
    have "\<rho> = - (24 / 7)" unfolding \<rho>_def e by (simp add: power2_eq_square)
    with rho0 show False by simp
  qed
  with u37 have Dpos: "0 < D" unfolding D_def by simp
  then have D0: "D \<noteq> 0" by simp
  have "z * z < 1 * 1" using z(1,2) by (intro mult_strict_mono) simp_all
  then have u1: "u < 1" unfolding u_def by (simp add: power2_eq_square)
  have r_eq: "r = z - (35 * z ^ 4 - 30 * z\<^sup>2 + 3) / (20 * z * (7 * z\<^sup>2 - 3))"
    unfolding r_def ..
  note alg = newton_4_algebra [OF z(1) u_def D_def D0 \<rho>_def q_def r_eq]
  have z1: "z\<^sup>2 \<noteq> 1" using u1 unfolding u_def by simp
  have z3: "7 * z\<^sup>2 \<noteq> 3" using D0 unfolding D_def u_def by simp
  show "newton_step 4 z = (r, z, 5 * z * (7 * z\<^sup>2 - 3) / 2)"
    unfolding r_def using z1 _ z3 by (rule newton_step_4) (use z(1) in simp)
  have den: "0 < 40 * u * D" using u0 Dpos by simp
  have q0: "0 \<le> q" unfolding q_def using rho0 den by (intro divide_nonneg_pos)
  have "\<rho> < 20 * u * D" using alg(5) rho0 u37 by linarith
  then have "2 * \<rho> < 2 * (20 * u * D)" by linarith
  also have "2 * (20 * u * D) = 40 * u * D" by simp
  finally have "2 * \<rho> < 40 * u * D" .
  then have "2 * q < 1" unfolding q_def using den by (simp add: pos_divide_less_eq)
  then have q12: "0 < 1 - 2 * q" by simp
  show rpos: "0 < r" unfolding alg(1) using z(1) q12 by (rule mult_pos_pos)
  have "z * (1 - 2 * q) \<le> z * 1" using z(1) q0 by (intro mult_left_mono) simp_all
  then show "r \<le> z" unfolding alg(1) by simp
  have "0 \<le> 40 * u * q\<^sup>2 * (D + 14 * u * (1 - q)\<^sup>2)"
    using u0 Dpos by (intro mult_nonneg_nonneg add_nonneg_nonneg) simp_all
  then show "0 \<le> 35 * (r\<^sup>2)\<^sup>2 - 30 * r\<^sup>2 + 3" unfolding alg(3) .
  show "35 * (z\<^sup>2)\<^sup>2 - 30 * z\<^sup>2 + 3 = 20 * z * (7 * z\<^sup>2 - 3) * (z - r)"
    using alg(4) unfolding \<rho>_def D_def u_def .
  have "10 * D * (u - 3 / 7) - \<rho> = \<rho> + 48 / 7"
    unfolding \<rho>_def D_def by (simp add: algebra_simps power2_eq_square)
  then have "\<rho> \<le> 10 * D * (u - 3 / 7)" using rho0 by linarith
  then have "40 * u * D * q \<le> 10 * D * (u - 3 / 7)" using alg(6) by simp
  then have "D * (4 * u * q) \<le> D * (u - 3 / 7)" by (simp add: algebra_simps)
  then have "4 * u * q \<le> u - 3 / 7" using Dpos by (simp only: mult_le_cancel_left_pos)
  moreover have "u * (1 - 2 * q)\<^sup>2 = u - 4 * u * q + 4 * u * q\<^sup>2"
    by (simp add: algebra_simps power2_eq_square)
  moreover have "0 \<le> 4 * u * q\<^sup>2" using u0 by simp
  ultimately show "3 / 7 \<le> r\<^sup>2" unfolding alg(2) by linarith
qed

lemma newton_4_B_step:
  fixes z :: real
  assumes z: "0 < z" "z\<^sup>2 \<le> 1 / 7" "35 * (z\<^sup>2)\<^sup>2 - 30 * z\<^sup>2 + 3 \<le> 0"
  defines "r \<equiv> z - (35 * z ^ 4 - 30 * z\<^sup>2 + 3) / (20 * z * (7 * z\<^sup>2 - 3))"
  shows "newton_step 4 z = (r, z, 5 * z * (7 * z\<^sup>2 - 3) / 2)"
    and "0 < r" and "r \<le> z" and "r\<^sup>2 \<le> 1 / 7" and "35 * (r\<^sup>2)\<^sup>2 - 30 * r\<^sup>2 + 3 \<le> 0"
    and "35 * (z\<^sup>2)\<^sup>2 - 30 * z\<^sup>2 + 3 = 20 * z * (7 * z\<^sup>2 - 3) * (z - r)"
proof -
  define u where "u = z\<^sup>2"
  define D where "D = 7 * u - 3"
  define \<rho> where "\<rho> = 35 * u\<^sup>2 - 30 * u + 3"
  define q where "q = \<rho> / (40 * u * D)"
  have u0: "0 < u" unfolding u_def using z(1) by simp
  have u17: "u \<le> 1 / 7" and rho0: "\<rho> \<le> 0" using z(2,3) unfolding u_def \<rho>_def by simp_all
  have Dneg: "D < 0" unfolding D_def using u17 by simp
  then have D0: "D \<noteq> 0" by simp
  have r_eq: "r = z - (35 * z ^ 4 - 30 * z\<^sup>2 + 3) / (20 * z * (7 * z\<^sup>2 - 3))"
    unfolding r_def ..
  note alg = newton_4_algebra [OF z(1) u_def D_def D0 \<rho>_def q_def r_eq]
  have z1: "z\<^sup>2 \<noteq> 1" using u17 unfolding u_def by simp
  have z3: "7 * z\<^sup>2 \<noteq> 3" using D0 unfolding D_def u_def by simp
  show "newton_step 4 z = (r, z, 5 * z * (7 * z\<^sup>2 - 3) / 2)"
    unfolding r_def using z1 _ z3 by (rule newton_step_4) (use z(1) in simp)
  have den: "40 * u * D < 0" using u0 Dneg by (simp add: mult_pos_neg)
  have q0: "0 \<le> q" unfolding q_def using rho0 den by (intro divide_nonpos_neg)
  have "20 * u * D < \<rho>" using alg(5) rho0 u17 by linarith
  then have "2 * (20 * u * D) < 2 * \<rho>" by linarith
  moreover have "2 * (20 * u * D) = 40 * u * D" by simp
  ultimately have "40 * u * D < 2 * \<rho>" by simp
  then have "2 * q < 1" unfolding q_def using den by (simp add: neg_divide_less_eq)
  then have q12: "0 < 1 - 2 * q" by simp
  show rpos: "0 < r" unfolding alg(1) using z(1) q12 by (rule mult_pos_pos)
  have "z * (1 - 2 * q) \<le> z * 1" using z(1) q0 by (intro mult_left_mono) simp_all
  then show rz: "r \<le> z" unfolding alg(1) by simp
  have "r * r \<le> z * z" using rz rpos by (intro mult_mono) simp_all
  then show "r\<^sup>2 \<le> 1 / 7" using z(2) by (simp add: power2_eq_square)
  have "\<bar>1 - q\<bar> \<le> 1" using q0 \<open>2 * q < 1\<close> by simp
  then have "(1 - q)\<^sup>2 \<le> 1" by (simp add: abs_square_le_1)
  then have "14 * u * (1 - q)\<^sup>2 \<le> 14 * u * 1" using u0 by (intro mult_left_mono) simp_all
  then have "D + 14 * u * (1 - q)\<^sup>2 \<le> 0" unfolding D_def using u17 by linarith
  with \<open>0 < u\<close> have "40 * u * q\<^sup>2 * (D + 14 * u * (1 - q)\<^sup>2) \<le> 0"
    by (intro mult_nonneg_nonpos) simp_all
  then show "35 * (r\<^sup>2)\<^sup>2 - 30 * r\<^sup>2 + 3 \<le> 0" unfolding alg(3) .
  show "35 * (z\<^sup>2)\<^sup>2 - 30 * z\<^sup>2 + 3 = 20 * z * (7 * z\<^sup>2 - 3) * (z - r)"
    using alg(4) unfolding \<rho>_def D_def u_def .
qed

lemma cos_upper_6: "cos x \<le> 1 - x\<^sup>2 / 2 + x ^ 4 / 24 + x ^ 6 / 720" for x :: real
proof -
  obtain t where t: "cos x = (\<Sum>m<6. cos_coeff m * x ^ m) + (cos (t + 1 / 2 * real 6 * pi) / fact 6) * x ^ 6"
    using Maclaurin_cos_expansion [of x 6] by blast
  have e: "{..<6::nat} = {0, 1, 2, 3, 4, 5}" by auto
  have c: "cos_coeff 0 = 1" "cos_coeff (Suc 0) = 0" "cos_coeff 2 = - 1 / 2" "cos_coeff 3 = 0"
    "cos_coeff 4 = 1 / 24" "cos_coeff 5 = 0"
    by (simp_all add: cos_coeff_def fact_numeral)
  have s: "(\<Sum>m<6. cos_coeff m * x ^ m) = 1 - x\<^sup>2 / 2 + x ^ 4 / 24"
    unfolding e by (simp add: c)
  have "cos (t + 1 / 2 * real 6 * pi) \<le> 1" by (rule cos_le_one)
  moreover have "0 \<le> x ^ 6 / 720" by simp
  ultimately have "cos (t + 1 / 2 * real 6 * pi) * (x ^ 6 / 720) \<le> 1 * (x ^ 6 / 720)"
    by (rule mult_right_mono)
  moreover have "(cos (t + 1 / 2 * real 6 * pi) / fact 6) * x ^ 6 = cos (t + 1 / 2 * real 6 * pi) * (x ^ 6 / 720)"
    by (simp add: fact_numeral)
  ultimately show ?thesis unfolding t s by linarith
qed

lemma rho_diff:
  "35 * x\<^sup>2 - 30 * x + 3 - (35 * y\<^sup>2 - 30 * y + 3) = (x - y) * (35 * (x + y) - 30)" for x y :: real
  by (simp add: algebra_simps power2_eq_square)

lemma rho_mono_right:
  fixes x y :: real
  assumes "3 / 7 \<le> y" "y \<le> x"
  shows "35 * y\<^sup>2 - 30 * y + 3 \<le> 35 * x\<^sup>2 - 30 * x + 3"
proof -
  have "0 \<le> (x - y) * (35 * (x + y) - 30)"
    using assms by (intro mult_nonneg_nonneg) simp_all
  then show ?thesis using rho_diff [of x y] by linarith
qed

lemma rho_mono_left:
  fixes x y :: real
  assumes "y \<le> x" "x \<le> 3 / 7"
  shows "35 * x\<^sup>2 - 30 * x + 3 \<le> 35 * y\<^sup>2 - 30 * y + 3"
proof -
  have "(x - y) * (35 * (x + y) - 30) \<le> 0"
    using assms by (intro mult_nonneg_nonpos) simp_all
  then show ?thesis using rho_diff [of x y] by linarith
qed

lemma newton_4_A:
  "0 < z \<Longrightarrow> z < 1 \<Longrightarrow> 3 / 7 \<le> z\<^sup>2 \<Longrightarrow> 0 \<le> 35 * (z\<^sup>2)\<^sup>2 - 30 * z\<^sup>2 + 3 \<Longrightarrow> z \<le> real K * EPS \<Longrightarrow>
   \<exists>t r. newton_loop 4 z = Some (r, 5 * t * (7 * t\<^sup>2 - 3) / 2)
     \<and> 0 < r \<and> r \<le> t \<and> t < 1 \<and> t - r \<le> EPS
     \<and> 3 / 7 \<le> r\<^sup>2 \<and> 0 \<le> 35 * (r\<^sup>2)\<^sup>2 - 30 * r\<^sup>2 + 3
     \<and> 35 * (t\<^sup>2)\<^sup>2 - 30 * t\<^sup>2 + 3 = 20 * t * (7 * t\<^sup>2 - 3) * (t - r)"
proof (induction K arbitrary: z)
  case 0
  then show ?case by simp
next
  case (Suc K)
  define r where "r = z - (35 * z ^ 4 - 30 * z\<^sup>2 + 3) / (20 * z * (7 * z\<^sup>2 - 3))"
  note s = newton_4_A_step [OF Suc.prems(1-4), folded r_def]
  show ?case
  proof (cases "ABS (r - z) > EPS")
    case True
    then have "r \<le> z - EPS" using s(3) by (simp add: ABS_abs)
    also have "\<dots> \<le> real K * EPS" using Suc.prems(5) by (simp add: algebra_simps)
    finally have k: "r \<le> real K * EPS" .
    have r1: "r < 1" using s(3) Suc.prems(2) by simp
    have "newton_loop 4 z = newton_loop 4 r" using s(1) True by (rule newton_loop_again)
    with Suc.IH [OF s(2) r1 s(4) s(5) k] show ?thesis by simp
  next
    case False
    then have "ABS (r - z) \<le> EPS" by simp
    with s(1) have "newton_loop 4 z = Some (r, 5 * z * (7 * z\<^sup>2 - 3) / 2)" by (rule newton_loop_exit)
    moreover have "z - r \<le> EPS" using False s(3) by (simp add: ABS_abs)
    ultimately show ?thesis using s(2-6) Suc.prems(2) by blast
  qed
qed

lemma newton_4_B:
  "0 < z \<Longrightarrow> z\<^sup>2 \<le> 1 / 7 \<Longrightarrow> 35 * (z\<^sup>2)\<^sup>2 - 30 * z\<^sup>2 + 3 \<le> 0 \<Longrightarrow> z \<le> real K * EPS \<Longrightarrow>
   \<exists>t r. newton_loop 4 z = Some (r, 5 * t * (7 * t\<^sup>2 - 3) / 2)
     \<and> 0 < r \<and> r \<le> t \<and> t\<^sup>2 \<le> 1 / 7 \<and> t - r \<le> EPS
     \<and> 35 * (r\<^sup>2)\<^sup>2 - 30 * r\<^sup>2 + 3 \<le> 0
     \<and> 35 * (t\<^sup>2)\<^sup>2 - 30 * t\<^sup>2 + 3 = 20 * t * (7 * t\<^sup>2 - 3) * (t - r)"
proof (induction K arbitrary: z)
  case 0
  then show ?case by simp
next
  case (Suc K)
  define r where "r = z - (35 * z ^ 4 - 30 * z\<^sup>2 + 3) / (20 * z * (7 * z\<^sup>2 - 3))"
  note s = newton_4_B_step [OF Suc.prems(1-3), folded r_def]
  show ?case
  proof (cases "ABS (r - z) > EPS")
    case True
    then have "r \<le> z - EPS" using s(3) by (simp add: ABS_abs)
    also have "\<dots> \<le> real K * EPS" using Suc.prems(4) by (simp add: algebra_simps)
    finally have k: "r \<le> real K * EPS" .
    have "newton_loop 4 z = newton_loop 4 r" using s(1) True by (rule newton_loop_again)
    with Suc.IH [OF s(2) s(4) s(5) k] show ?thesis by simp
  next
    case False
    then have "ABS (r - z) \<le> EPS" by simp
    with s(1) have "newton_loop 4 z = Some (r, 5 * z * (7 * z\<^sup>2 - 3) / 2)" by (rule newton_loop_exit)
    moreover have "z - r \<le> EPS" using False s(3) by (simp add: ABS_abs)
    ultimately show ?thesis using s(2-6) Suc.prems(2) by blast
  qed
qed

lemma guess_4_1:
  defines "g \<equiv> cos (3.141592654 * (real_of_int 1 - 0.25) / (real_of_int 4 + 0.5))"
  shows "0 < g" and "g < 1" and "3 / 7 \<le> g\<^sup>2" and "0 \<le> 35 * (g\<^sup>2)\<^sup>2 - 30 * g\<^sup>2 + 3"
proof -
  define a :: real where "a = 3.141592654 * (real_of_int 1 - 0.25) / (real_of_int 4 + 0.5)"
  have g: "g = cos a" unfolding g_def a_def ..
  have a: "a = 1570796327 / 3000000000" unfolding a_def by simp
  have "(866 / 1000 :: real) \<le> 1 - a\<^sup>2 / 2 + a ^ 4 / 24 - a ^ 6 / 720"
    unfolding a by (simp add: power2_eq_square power4_eq_xxxx eval_nat_numeral)
  also have "\<dots> \<le> cos a" by (rule cos_lower_6)
  finally have l: "866 / 1000 \<le> g" unfolding g .
  then show "0 < g" by simp
  have "(866 / 1000) * (866 / 1000) \<le> g * g"
    using l by (intro mult_mono) simp_all
  then have u: "742 / 1000 \<le> g\<^sup>2" by (simp add: power2_eq_square)
  then show "3 / 7 \<le> g\<^sup>2" by simp
  have "(0::real) \<le> 35 * (742 / 1000)\<^sup>2 - 30 * (742 / 1000) + 3" by (simp add: power2_eq_square)
  also have "\<dots> \<le> 35 * (g\<^sup>2)\<^sup>2 - 30 * g\<^sup>2 + 3"
    using _ u by (rule rho_mono_right) simp
  finally show "0 \<le> 35 * (g\<^sup>2)\<^sup>2 - 30 * g\<^sup>2 + 3" .
  have "0 < a" "a < pi"
    using pi_lower unfolding a by simp_all
  then have "cos a * cos a \<noteq> 1" by (rule cos_sq_less_1)
  then have "cos a \<noteq> 1" by auto
  moreover have "cos a \<le> 1" by (rule cos_le_one)
  ultimately show "g < 1" unfolding g by (rule le_neq_trans [rotated])
qed

lemma guess_4_2:
  defines "g \<equiv> cos (3.141592654 * (real_of_int 2 - 0.25) / (real_of_int 4 + 0.5))"
  shows "0 < g" and "g\<^sup>2 \<le> 1 / 7" and "35 * (g\<^sup>2)\<^sup>2 - 30 * g\<^sup>2 + 3 \<le> 0"
proof -
  define a :: real where "a = 3.141592654 * (real_of_int 2 - 0.25) / (real_of_int 4 + 0.5)"
  have g: "g = cos a" unfolding g_def a_def ..
  have a: "a = 10995574289 / 9000000000" unfolding a_def by simp
  have "(3418 / 10000 :: real) \<le> 1 - a\<^sup>2 / 2 + a ^ 4 / 24 - a ^ 6 / 720"
    unfolding a by (simp add: power2_eq_square power4_eq_xxxx eval_nat_numeral)
  also have "\<dots> \<le> cos a" by (rule cos_lower_6)
  finally have l: "3418 / 10000 \<le> g" unfolding g .
  then show g0: "0 < g" by simp
  have "cos a \<le> 1 - a\<^sup>2 / 2 + a ^ 4 / 24 + a ^ 6 / 720" by (rule cos_upper_6)
  also have "\<dots> \<le> 352 / 1000"
    unfolding a by (simp add: power2_eq_square power4_eq_xxxx eval_nat_numeral)
  finally have h: "g \<le> 352 / 1000" unfolding g .
  have "g * g \<le> (352 / 1000) * (352 / 1000)"
    using h g0 by (intro mult_mono) simp_all
  then show u17: "g\<^sup>2 \<le> 1 / 7" by (simp add: power2_eq_square)
  have "(3418 / 10000) * (3418 / 10000) \<le> g * g"
    using l by (intro mult_mono) simp_all
  then have u: "1168 / 10000 \<le> g\<^sup>2" by (simp add: power2_eq_square)
  have "g\<^sup>2 \<le> 3 / 7" using u17 by simp
  with u have "35 * (g\<^sup>2)\<^sup>2 - 30 * g\<^sup>2 + 3 \<le> 35 * (1168 / 10000)\<^sup>2 - 30 * (1168 / 10000) + 3"
    by (rule rho_mono_left)
  also have "\<dots> \<le> (0::real)" by (simp add: power2_eq_square)
  finally show "35 * (g\<^sup>2)\<^sup>2 - 30 * g\<^sup>2 + 3 \<le> 0" .
qed

text \<open>
  When the loop leaves, its last two values lie within \<open>EPS\<close> of each other, which puts
  their squares between two decimals \<open>10\<^sup>-\<^sup>1\<^sup>3\<close> apart around the root of \<open>\<rho>\<close>; the
  weight \<open>2 / ((1 - z\<^sup>2) pp\<^sup>2)\<close> is then enclosed by evaluating it at these decimals.
\<close>

lemma weight_4_A:
  fixes r t :: real
  assumes r0: "0 < r" and rt: "r \<le> t" and t1: "t < 1" and tr: "t - r \<le> EPS"
    and a37: "3 / 7 \<le> r\<^sup>2" and rhoa: "0 \<le> 35 * (r\<^sup>2)\<^sup>2 - 30 * r\<^sup>2 + 3"
    and rhob: "35 * (t\<^sup>2)\<^sup>2 - 30 * t\<^sup>2 + 3 = 20 * t * (7 * t\<^sup>2 - 3) * (t - r)"
  defines "pp \<equiv> 5 * t * (7 * t\<^sup>2 - 3) / 2"
  shows "0.3478548451371 \<le> 2 * 1 / ((1 - r * r) * pp * pp)"
    and "2 * 1 / ((1 - r * r) * pp * pp) \<le> 0.3478548451377"
    and "r < 1"
proof -
  define a where "a = r\<^sup>2"
  define b where "b = t\<^sup>2"
  define D where "D = 7 * b - 3"
  define a1 :: real where "a1 = 0.7415557471458"
  define b1 :: real where "b1 = 0.7415557471459"
  have t0: "0 < t" using r0 rt by simp
  show "r < 1" using rt t1 by simp
  have "r * r \<le> t * t" using r0 rt by (intro mult_mono) simp_all
  then have ab: "a \<le> b" unfolding a_def b_def by (simp add: power2_eq_square)
  have "t * t < 1 * 1" using t0 t1 by (intro mult_strict_mono) simp_all
  then have b_lt1: "b < 1" unfolding b_def by (simp add: power2_eq_square)
  have a37': "3 / 7 \<le> a" using a37 unfolding a_def .
  have lo: "a1 \<le> a"
  proof (rule ccontr)
    assume "\<not> a1 \<le> a"
    then have "a \<le> a1" by simp
    with a37' have "35 * a\<^sup>2 - 30 * a + 3 \<le> 35 * a1\<^sup>2 - 30 * a1 + 3" by (rule rho_mono_right)
    also have "\<dots> < 0" unfolding a1_def by (simp add: power2_eq_square)
    finally show False using rhoa unfolding a_def by simp
  qed
  have D0: "0 \<le> D" and D4: "D \<le> 4" unfolding D_def using a37' ab b_lt1 by simp_all
  have d0: "0 \<le> t - r" using rt by simp
  have "20 * t * D * (t - r) \<le> 20 * 1 * 4 * EPS"
    using t0 t1 D0 D4 d0 tr by (intro mult_mono mult_nonneg_nonneg) simp_all
  then have rb: "35 * b\<^sup>2 - 30 * b + 3 \<le> 80 * EPS"
    using rhob unfolding b_def D_def by simp
  have hi: "b \<le> b1"
  proof (rule ccontr)
    assume "\<not> b \<le> b1"
    then have "b1 \<le> b" by simp
    have "80 * EPS < 35 * b1\<^sup>2 - 30 * b1 + 3"
      unfolding b1_def EPS_def by (simp add: power2_eq_square)
    also have "\<dots> \<le> 35 * b\<^sup>2 - 30 * b + 3"
      using _ \<open>b1 \<le> b\<close> by (rule rho_mono_right) (simp add: b1_def)
    finally show False using rb by simp
  qed
  have ppD: "pp = 5 / 2 * (t * D)" unfolding pp_def D_def b_def by simp
  have "pp * pp = 25 / 4 * (t * t * (D * D))" unfolding ppD by simp
  then have pp2: "pp * pp = 25 / 4 * (b * (D * D))" unfolding b_def power2_eq_square .
  have "(1 - r * r) * pp * pp = (1 - a) * (pp * pp)"
    unfolding a_def power2_eq_square by (simp only: mult.assoc)
  also have "\<dots> = 25 / 4 * ((1 - a) * b * (D * D))" unfolding pp2 by simp
  finally have den: "(1 - r * r) * pp * pp = 25 / 4 * ((1 - a) * b * (D * D))" .
  have a1b1: "a1 \<le> b1" "0 < a1" "b1 < 1" "0 < 7 * a1 - 3" unfolding a1_def b1_def by simp_all
  have Dlo: "7 * a1 - 3 \<le> D" and Dhi: "D \<le> 7 * b1 - 3"
    unfolding D_def using lo ab hi by simp_all
  have up: "(1 - a) * b * (D * D) \<le> (1 - a1) * b1 * ((7 * b1 - 3) * (7 * b1 - 3))"
    using lo ab hi a1b1 Dlo Dhi b_lt1 by (intro mult_mono mult_nonneg_nonneg) simp_all
  have dn: "(1 - b1) * a1 * ((7 * a1 - 3) * (7 * a1 - 3)) \<le> (1 - a) * b * (D * D)"
    using lo ab hi a1b1 Dlo Dhi b_lt1 by (intro mult_mono mult_nonneg_nonneg) simp_all
  have pos: "0 < (1 - b1) * a1 * ((7 * a1 - 3) * (7 * a1 - 3))"
    using a1b1 by (intro mult_pos_pos) simp_all
  then have pos': "0 < (1 - a) * b * (D * D)" using dn by linarith
  have "2 * 1 / ((1 - r * r) * pp * pp) = (8 / 25) / ((1 - a) * b * (D * D))"
    unfolding den by simp
  moreover have "(8 / 25) / ((1 - a1) * b1 * ((7 * b1 - 3) * (7 * b1 - 3))) \<le> (8 / 25) / ((1 - a) * b * (D * D))"
  proof (rule divide_left_mono [OF up])
    have "0 < (1 - a1) * b1 * ((7 * b1 - 3) * (7 * b1 - 3))" using pos' up by linarith
    then show "0 < (1 - a1) * b1 * ((7 * b1 - 3) * (7 * b1 - 3)) * ((1 - a) * b * (D * D))"
      using pos' by (rule mult_pos_pos)
  qed simp
  moreover have "(8 / 25) / ((1 - a) * b * (D * D)) \<le> (8 / 25) / ((1 - b1) * a1 * ((7 * a1 - 3) * (7 * a1 - 3)))"
  proof (rule divide_left_mono [OF dn])
    show "0 < (1 - a) * b * (D * D) * ((1 - b1) * a1 * ((7 * a1 - 3) * (7 * a1 - 3)))"
      using pos' pos by (rule mult_pos_pos)
  qed simp
  moreover have "0.3478548451371 \<le> (8 / 25) / ((1 - a1) * b1 * ((7 * b1 - 3) * (7 * b1 - 3)))"
    unfolding a1_def b1_def by simp
  moreover have "(8 / 25) / ((1 - b1) * a1 * ((7 * a1 - 3) * (7 * a1 - 3))) \<le> 0.3478548451377"
    unfolding a1_def b1_def by simp
  ultimately show "0.3478548451371 \<le> 2 * 1 / ((1 - r * r) * pp * pp)"
    and "2 * 1 / ((1 - r * r) * pp * pp) \<le> 0.3478548451377"
    by linarith+
qed

lemma weight_4_B:
  fixes r t :: real
  assumes r0: "0 < r" and rt: "r \<le> t" and t17: "t\<^sup>2 \<le> 1 / 7" and tr: "t - r \<le> EPS"
    and rhoa: "35 * (r\<^sup>2)\<^sup>2 - 30 * r\<^sup>2 + 3 \<le> 0"
    and rhob: "35 * (t\<^sup>2)\<^sup>2 - 30 * t\<^sup>2 + 3 = 20 * t * (7 * t\<^sup>2 - 3) * (t - r)"
  defines "pp \<equiv> 5 * t * (7 * t\<^sup>2 - 3) / 2"
  shows "0.6521451548619 \<le> 2 * 1 / ((1 - r * r) * pp * pp)"
    and "2 * 1 / ((1 - r * r) * pp * pp) \<le> 0.6521451548631"
    and "r < 1"
proof -
  define a where "a = r\<^sup>2"
  define b where "b = t\<^sup>2"
  define E where "E = 3 - 7 * b"
  define a2 :: real where "a2 = 0.11558710999704"
  define b2 :: real where "b2 = 0.11558710999714"
  have t0: "0 < t" using r0 rt by simp
  have t1: "t < 1"
  proof (rule ccontr)
    assume "\<not> t < 1"
    then have "1 * 1 \<le> t * t" by (intro mult_mono) simp_all
    with t17 show False by (simp add: power2_eq_square)
  qed
  show "r < 1" using rt t1 by simp
  have "r * r \<le> t * t" using r0 rt by (intro mult_mono) simp_all
  then have ab: "a \<le> b" unfolding a_def b_def by (simp add: power2_eq_square)
  have b17: "b \<le> 1 / 7" using t17 unfolding b_def .
  have a0: "0 < a" unfolding a_def using r0 by simp
  have lo: "a2 \<le> a"
  proof (rule ccontr)
    assume "\<not> a2 \<le> a"
    then have "a \<le> a2" by simp
    have "0 < 35 * a2\<^sup>2 - 30 * a2 + 3" unfolding a2_def by (simp add: power2_eq_square)
    also have "\<dots> \<le> 35 * a\<^sup>2 - 30 * a + 3"
      using \<open>a \<le> a2\<close> by (rule rho_mono_left) (simp add: a2_def)
    finally show False using rhoa unfolding a_def by simp
  qed
  have E2: "2 \<le> E" and E3: "E \<le> 3" unfolding E_def using b17 a0 ab by simp_all
  have d0: "0 \<le> t - r" using rt by simp
  have "20 * t * E * (t - r) \<le> 20 * 1 * 3 * EPS"
    using t0 t1 E2 E3 d0 tr by (intro mult_mono mult_nonneg_nonneg) simp_all
  moreover have "20 * t * (7 * b - 3) * (t - r) = - (20 * t * E * (t - r))"
    unfolding E_def by (simp add: algebra_simps)
  ultimately have rb: "- (60 * EPS) \<le> 35 * b\<^sup>2 - 30 * b + 3"
    using rhob unfolding b_def by simp
  have hi: "b \<le> b2"
  proof (rule ccontr)
    assume "\<not> b \<le> b2"
    then have "b2 \<le> b" by simp
    moreover have "b \<le> 3 / 7" using b17 by simp
    ultimately have "35 * b\<^sup>2 - 30 * b + 3 \<le> 35 * b2\<^sup>2 - 30 * b2 + 3" by (rule rho_mono_left)
    also have "\<dots> < - (60 * EPS)"
      unfolding b2_def EPS_def by (simp add: power2_eq_square)
    finally show False using rb by simp
  qed
  have "7 * b - 3 = - E" unfolding E_def by simp
  then have ppE: "pp = - (5 / 2 * (t * E))" unfolding pp_def b_def by simp
  have "pp * pp = 25 / 4 * (t * t * (E * E))" unfolding ppE by simp
  then have pp2: "pp * pp = 25 / 4 * (b * (E * E))" unfolding b_def power2_eq_square .
  have "(1 - r * r) * pp * pp = (1 - a) * (pp * pp)"
    unfolding a_def power2_eq_square by (simp only: mult.assoc)
  also have "\<dots> = 25 / 4 * ((1 - a) * b * (E * E))" unfolding pp2 by simp
  finally have den: "(1 - r * r) * pp * pp = 25 / 4 * ((1 - a) * b * (E * E))" .
  have a2b2: "a2 \<le> b2" "0 < a2" "b2 < 1" "0 < 3 - 7 * b2" unfolding a2_def b2_def by simp_all
  have Elo: "3 - 7 * b2 \<le> E" and Ehi: "E \<le> 3 - 7 * a2"
    unfolding E_def using lo ab hi by simp_all
  have up: "(1 - a) * b * (E * E) \<le> (1 - a2) * b2 * ((3 - 7 * a2) * (3 - 7 * a2))"
    using lo ab hi a2b2 Elo Ehi by (intro mult_mono mult_nonneg_nonneg) simp_all
  have dn: "(1 - b2) * a2 * ((3 - 7 * b2) * (3 - 7 * b2)) \<le> (1 - a) * b * (E * E)"
    using lo ab hi a2b2 Elo Ehi by (intro mult_mono mult_nonneg_nonneg) simp_all
  have pos: "0 < (1 - b2) * a2 * ((3 - 7 * b2) * (3 - 7 * b2))"
    using a2b2 by (intro mult_pos_pos) simp_all
  then have pos': "0 < (1 - a) * b * (E * E)" using dn by linarith
  have "2 * 1 / ((1 - r * r) * pp * pp) = (8 / 25) / ((1 - a) * b * (E * E))"
    unfolding den by simp
  moreover have "(8 / 25) / ((1 - a2) * b2 * ((3 - 7 * a2) * (3 - 7 * a2))) \<le> (8 / 25) / ((1 - a) * b * (E * E))"
  proof (rule divide_left_mono [OF up])
    have "0 < (1 - a2) * b2 * ((3 - 7 * a2) * (3 - 7 * a2))" using pos' up by linarith
    then show "0 < (1 - a2) * b2 * ((3 - 7 * a2) * (3 - 7 * a2)) * ((1 - a) * b * (E * E))"
      using pos' by (rule mult_pos_pos)
  qed simp
  moreover have "(8 / 25) / ((1 - a) * b * (E * E)) \<le> (8 / 25) / ((1 - b2) * a2 * ((3 - 7 * b2) * (3 - 7 * b2)))"
  proof (rule divide_left_mono [OF dn])
    show "0 < (1 - a) * b * (E * E) * ((1 - b2) * a2 * ((3 - 7 * b2) * (3 - 7 * b2)))"
      using pos' pos by (rule mult_pos_pos)
  qed simp
  moreover have "0.6521451548619 \<le> (8 / 25) / ((1 - a2) * b2 * ((3 - 7 * a2) * (3 - 7 * a2)))"
    unfolding a2_def b2_def by simp
  moreover have "(8 / 25) / ((1 - b2) * a2 * ((3 - 7 * b2) * (3 - 7 * b2))) \<le> 0.6521451548631"
    unfolding a2_def b2_def by simp
  ultimately show "0.6521451548619 \<le> 2 * 1 / ((1 - r * r) * pp * pp)"
    and "2 * 1 / ((1 - r * r) * pp * pp) \<le> 0.6521451548631"
    by linarith+
qed

lemma gauleg_4:
  "\<exists>z1 z2 W1 W2.
     gauleg (- 1) 1 x w 4 = Some (x(0 := - z1, 3 := z1, 1 := - z2, 2 := z2), w(0 := W1, 3 := W1, 1 := W2, 2 := W2))
     \<and> 0 < z1 \<and> z1 < 1 \<and> 0 < z2 \<and> z2 < 1
     \<and> 0.3478548451371 \<le> W1 \<and> W1 \<le> 0.3478548451377
     \<and> 0.6521451548619 \<le> W2 \<and> W2 \<le> 0.6521451548631"
proof -
  let ?g1 = "cos (3.141592654 * (real_of_int 1 - 0.25) / (real_of_int 4 + 0.5))"
  let ?g2 = "cos (3.141592654 * (real_of_int 2 - 0.25) / (real_of_int 4 + 0.5))"
  obtain K1 where "?g1 \<le> real K1 * EPS" using multiple_of_EPS by blast
  from newton_4_A [OF guess_4_1 this]
  obtain t1 z1 where n1: "newton_loop 4 ?g1 = Some (z1, 5 * t1 * (7 * t1\<^sup>2 - 3) / 2)"
    and f1: "0 < z1" "z1 \<le> t1" "t1 < 1" "t1 - z1 \<le> EPS" "3 / 7 \<le> z1\<^sup>2"
      "0 \<le> 35 * (z1\<^sup>2)\<^sup>2 - 30 * z1\<^sup>2 + 3"
      "35 * (t1\<^sup>2)\<^sup>2 - 30 * t1\<^sup>2 + 3 = 20 * t1 * (7 * t1\<^sup>2 - 3) * (t1 - z1)"
    by blast
  obtain K2 where "?g2 \<le> real K2 * EPS" using multiple_of_EPS by blast
  from newton_4_B [OF guess_4_2 this]
  obtain t2 z2 where n2: "newton_loop 4 ?g2 = Some (z2, 5 * t2 * (7 * t2\<^sup>2 - 3) / 2)"
    and f2: "0 < z2" "z2 \<le> t2" "t2\<^sup>2 \<le> 1 / 7" "t2 - z2 \<le> EPS"
      "35 * (z2\<^sup>2)\<^sup>2 - 30 * z2\<^sup>2 + 3 \<le> 0"
      "35 * (t2\<^sup>2)\<^sup>2 - 30 * t2\<^sup>2 + 3 = 20 * t2 * (7 * t2\<^sup>2 - 3) * (t2 - z2)"
    by blast
  define W1 where "W1 = 2 * 1 / ((1 - z1 * z1) * (5 * t1 * (7 * t1\<^sup>2 - 3) / 2) * (5 * t1 * (7 * t1\<^sup>2 - 3) / 2))"
  define W2 where "W2 = 2 * 1 / ((1 - z2 * z2) * (5 * t2 * (7 * t2\<^sup>2 - 3) / 2) * (5 * t2 * (7 * t2\<^sup>2 - 3) / 2))"
  note b1 = weight_4_A [OF f1, folded W1_def]
  note b2 = weight_4_B [OF f2, folded W2_def]
  have m: "((4::int) + 1) sdiv 2 = 2" by (simp add: signed_divide_int_def)
  have one: "(1::int) \<le> 2" and two: "(2::int) \<le> 2" and e: "(1::int) + 1 = 2" by simp_all
  have "gauleg (- 1) 1 x w 4 =
      Some (x(0 := - z1, 3 := z1, 1 := - z2, 2 := z2), w(0 := W1, 3 := W1, 1 := W2, 2 := W2))"
    unfolding gauleg_def Let_def m
    by (subst gauleg_loop_step [OF one n1], subst e, subst gauleg_loop_step [OF two n2])
      (simp add: gauleg_loop_done W1_def W2_def)
  with f1(1) f2(1) b1 b2 show ?thesis by blast
qed

text \<open>
  Claim C4. \<^verbatim>\<open>ssht_sampling_gl_thetas_weights(thetas, weights, L)\<close> computes the rule of
  \<^verbatim>\<open>gauleg\<close> on \<open>[-1, 1]\<close> with \<open>n = L\<close> and replaces each abscissa \<open>x\<close> in the cells
  \<open>0, \<dots>, L - 1\<close> by \<open>arccos x\<close>, in the same cell; the weights are those of \<^verbatim>\<open>gauleg\<close>,
  unchanged. For \<open>L = 4\<close> it returns, the four colatitudes lie in the open interval
  \<open>(0, pi)\<close>, and the four weights sum to \<open>2\<close> within \<open>10\<^sup>-\<^sup>1\<^sup>0\<close>.
\<close>

theorem gl_thetas_weights_rule:
  "ssht_sampling_gl_thetas_weights thetas weights L =
     (case gauleg (- 1) 1 thetas weights L of
        None \<Rightarrow> None
      | Some (x, w) \<Rightarrow> Some (\<lambda>t. if 0 \<le> t \<and> t \<le> L - 1 then arccos (x t) else x t, w))
   \<and> (\<exists>th w. ssht_sampling_gl_thetas_weights thetas weights 4 = Some (th, w)
         \<and> 0 < th 0 \<and> th 0 < pi \<and> 0 < th 1 \<and> th 1 < pi
         \<and> 0 < th 2 \<and> th 2 < pi \<and> 0 < th 3 \<and> th 3 < pi
         \<and> \<bar>w 0 + w 1 + w 2 + w 3 - 2\<bar> \<le> 1 / 10 ^ 10)"
proof
  show "ssht_sampling_gl_thetas_weights thetas weights L =
     (case gauleg (- 1) 1 thetas weights L of
        None \<Rightarrow> None
      | Some (x, w) \<Rightarrow> Some (\<lambda>t. if 0 \<le> t \<and> t \<le> L - 1 then arccos (x t) else x t, w))"
    by (simp add: ssht_sampling_gl_thetas_weights_def acos_loop_map split: option.split)
  obtain z1 z2 W1 W2 where g: "gauleg (- 1) 1 thetas weights 4 =
      Some (thetas(0 := - z1, 3 := z1, 1 := - z2, 2 := z2), weights(0 := W1, 3 := W1, 1 := W2, 2 := W2))"
    and z: "0 < z1" "z1 < 1" "0 < z2" "z2 < 1"
    and W: "0.3478548451371 \<le> W1" "W1 \<le> 0.3478548451377"
      "0.6521451548619 \<le> W2" "W2 \<le> 0.6521451548631"
    using gauleg_4 [of thetas weights] by blast
  define th where "th = acos_loop 4 0 (thetas(0 := - z1, 3 := z1, 1 := - z2, 2 := z2))"
  define w where "w = weights(0 := W1, 3 := W1, 1 := W2, 2 := W2)"
  have r: "ssht_sampling_gl_thetas_weights thetas weights 4 = Some (th, w)"
    unfolding ssht_sampling_gl_thetas_weights_def g th_def w_def by simp
  have v: "th 0 = arccos (- z1)" "th 1 = arccos (- z2)" "th 2 = arccos z2" "th 3 = arccos z1"
    unfolding th_def acos_loop_map by simp_all
  have t0: "0 < th 0 \<and> th 0 < pi" unfolding v using z by (intro arccos_lt_bounded) simp_all
  have t1: "0 < th 1 \<and> th 1 < pi" unfolding v using z by (intro arccos_lt_bounded) simp_all
  have t2: "0 < th 2 \<and> th 2 < pi" unfolding v using z by (intro arccos_lt_bounded) simp_all
  have t3: "0 < th 3 \<and> th 3 < pi" unfolding v using z by (intro arccos_lt_bounded) simp_all
  have "w 0 + w 1 + w 2 + w 3 = 2 * W1 + 2 * W2" unfolding w_def by simp
  moreover have "2 * W1 + 2 * W2 - 2 \<le> 1 / 10 ^ 10" using W by simp
  moreover have "- (2 * W1 + 2 * W2 - 2) \<le> 1 / 10 ^ 10" using W by simp
  ultimately have s: "\<bar>w 0 + w 1 + w 2 + w 3 - 2\<bar> \<le> 1 / 10 ^ 10"
    by (simp only: abs_le_iff)
  from r t0 t1 t2 t3 s
  show "\<exists>th w. ssht_sampling_gl_thetas_weights thetas weights 4 = Some (th, w)
         \<and> 0 < th 0 \<and> th 0 < pi \<and> 0 < th 1 \<and> th 1 < pi
         \<and> 0 < th 2 \<and> th 2 < pi \<and> 0 < th 3 \<and> th 3 < pi
         \<and> \<bar>w 0 + w 1 + w 2 + w 3 - 2\<bar> \<le> 1 / 10 ^ 10"
    by blast
qed

section \<open>Rounding to binary64\<close>

lemma rne_eq:
  assumes "\<bar>y - real_of_int k\<bar> < 1 / 2 \<or> (\<bar>y - real_of_int k\<bar> = 1 / 2 \<and> even k)"
  shows "rne y = k"
proof -
  consider (ge) "real_of_int k \<le> y" "y - real_of_int k < 1 / 2"
    | (lt) "y < real_of_int k" "real_of_int k - y < 1 / 2"
    | (up) "y = real_of_int k + 1 / 2" "even k"
    | (dn) "y = real_of_int k - 1 / 2" "even k"
    using assms by (auto simp: abs_if split: if_splits)
  then show ?thesis
  proof cases
    case ge
    then have "\<lfloor>y\<rfloor> = k" by (simp add: floor_eq_iff)
    with ge show ?thesis by (simp add: rne_def)
  next
    case lt
    then have "\<lfloor>y\<rfloor> = k - 1" by (simp add: floor_eq_iff)
    with lt show ?thesis by (simp add: rne_def)
  next
    case up
    then have "\<lfloor>y\<rfloor> = k" by (simp add: floor_eq_iff)
    with up show ?thesis by (simp add: rne_def)
  next
    case dn
    then have "\<lfloor>y\<rfloor> = k - 1" by (simp add: floor_eq_iff)
    with dn show ?thesis by (simp add: rne_def)
  qed
qed

lemma rne_error: "\<bar>real_of_int (rne y) - y\<bar> \<le> 1 / 2"
proof -
  have "real_of_int \<lfloor>y\<rfloor> \<le> y" "y < real_of_int \<lfloor>y\<rfloor> + 1" by linarith+
  then show ?thesis by (auto simp: rne_def Let_def)
qed

lemma rne_of_int: "rne (real_of_int k) = k"
  by (rule rne_eq) simp



lemma binary64_zero: "binary64 0 = 0"
  by (simp add: binary64_def)

lemma binary64_scaled:
  assumes s: "e \<ge> - 1074" and lo: "2 ^ 52 \<le> \<bar>x\<bar> / 2 powr real_of_int e"
    and hi: "\<bar>x\<bar> / 2 powr real_of_int e < 2 ^ 53"
  shows "binary64 x = real_of_int (rne (x / 2 powr real_of_int e)) * 2 powr real_of_int e"
proof -
  have p: "0 < 2 powr real_of_int e" by simp
  from lo have "0 < \<bar>x\<bar> / 2 powr real_of_int e" by (rule less_le_trans [rotated]) simp
  with p have x0: "0 < \<bar>x\<bar>" by (simp add: zero_less_divide_iff)
  have "2 powr real_of_int (e + 52) = 2 powr real_of_int e * 2 ^ 52"
    by (simp add: powr_add)
  also have "\<dots> \<le> \<bar>x\<bar>"
    using lo p by (simp add: field_simps)
  finally have l: "2 powr real_of_int (e + 52) \<le> \<bar>x\<bar>" .
  have "\<bar>x\<bar> < 2 powr real_of_int e * 2 ^ 53"
    using hi p by (simp add: field_simps)
  also have "\<dots> = 2 powr real_of_int (e + 52 + 1)"
    by (simp add: powr_add)
  finally have u: "\<bar>x\<bar> < 2 powr real_of_int (e + 52 + 1)" .
  have "\<lfloor>log 2 \<bar>x\<bar>\<rfloor> = e + 52"
    using x0 l u by (simp add: floor_log_eq_powr_iff)
  moreover have "max (e + 52) (- 1022) - 52 = e"
    using s by simp
  ultimately have "max \<lfloor>log 2 \<bar>x\<bar>\<rfloor> (- 1022) - 52 = e" by simp
  moreover have "x \<noteq> 0" using x0 by simp
  ultimately show ?thesis
    by (simp only: binary64_def Let_def if_False)
qed

text \<open>Certificates: the value of a rounding at a number below \<open>2 ^ 53\<close>.\<close>

lemma binary64_up:
  fixes s :: nat
  assumes "s \<le> 1074" and "2 ^ 52 \<le> \<bar>x\<bar> * 2 ^ s" and "\<bar>x\<bar> * 2 ^ s < 2 ^ 53"
    and "\<bar>x * 2 ^ s - real_of_int k\<bar> < 1 / 2 \<or> (\<bar>x * 2 ^ s - real_of_int k\<bar> = 1 / 2 \<and> even k)"
  shows "binary64 x = real_of_int k / 2 ^ s"
proof -
  have p: "2 powr real_of_int (- int s) = 1 / 2 ^ s"
    by (simp add: powr_minus powr_realpow field_simps)
  have d: "y / 2 powr real_of_int (- int s) = y * 2 ^ s" for y :: real
    unfolding p by simp
  have "- 1074 \<le> - int s" using assms(1) by simp
  moreover have "2 ^ 52 \<le> \<bar>x\<bar> / 2 powr real_of_int (- int s)"
    unfolding d by (rule assms(2))
  moreover have "\<bar>x\<bar> / 2 powr real_of_int (- int s) < 2 ^ 53"
    unfolding d by (rule assms(3))
  ultimately have "binary64 x =
      real_of_int (rne (x / 2 powr real_of_int (- int s))) * 2 powr real_of_int (- int s)"
    by (rule binary64_scaled)
  also have "\<dots> = real_of_int (rne (x * 2 ^ s)) * (1 / 2 ^ s)"
    unfolding d unfolding p ..
  also have "rne (x * 2 ^ s) = k"
    using assms(4) by (rule rne_eq)
  finally show ?thesis by simp
qed

lemma binary64_of_int:
  assumes "\<bar>k\<bar> \<le> 2 ^ 53"
  shows "binary64 (real_of_int k) = real_of_int k"
proof (cases "k = 0")
  case True
  then show ?thesis by (simp add: binary64_zero)
next
  case False
  define a where "a = \<bar>real_of_int k\<bar>"
  have a1: "1 \<le> a" using False by (simp add: a_def)
  have a53: "a \<le> 2 ^ 53"
  proof -
    have "real_of_int \<bar>k\<bar> \<le> real_of_int (2 ^ 53)" using assms by (simp only: of_int_le_iff)
    then show ?thesis by (simp add: a_def)
  qed
  define e0 where "e0 = \<lfloor>log 2 a\<rfloor>"
  have b: "2 powr real_of_int e0 \<le> a" "a < 2 powr real_of_int (e0 + 1)"
    using a1 floor_log_eq_powr_iff [of a 2 e0] by (simp_all add: e0_def)
  have "0 \<le> log 2 a" using a1 by simp
  then have e0n: "0 \<le> e0" by (simp add: e0_def)
  have e0u: "e0 \<le> 53"
  proof -
    note b(1)
    also note a53
    also have "(2::real) ^ 53 = 2 powr real_of_int 53" by simp
    finally have "real_of_int e0 \<le> real_of_int 53"
      by (subst (asm) powr_le_cancel_iff) simp_all
    then show ?thesis by (simp only: of_int_le_iff)
  qed
  have m: "max e0 (- 1022) - 52 = e0 - 52" using e0n by simp
  have v: "binary64 (real_of_int k) =
      real_of_int (rne (real_of_int k / 2 powr real_of_int (e0 - 52))) * 2 powr real_of_int (e0 - 52)"
    using False m by (simp add: binary64_def Let_def a_def [symmetric] e0_def [symmetric])
  show ?thesis
  proof (cases "e0 \<le> 52")
    case True
    define d where "d = nat (52 - e0)"
    have e: "e0 - 52 = - int d" using True by (simp add: d_def)
    have p: "2 powr real_of_int (- int d) = 1 / 2 ^ d"
      by (simp add: powr_minus powr_realpow field_simps)
    have "real_of_int k / 2 powr real_of_int (e0 - 52) = real_of_int (k * 2 ^ d)"
      unfolding e p by simp
    then have "rne (real_of_int k / 2 powr real_of_int (e0 - 52)) = k * 2 ^ d"
      by (simp only: rne_of_int)
    then show ?thesis unfolding v unfolding e p by simp
  next
    case False
    with e0u have e: "e0 = 53" by simp
    have "2 ^ 53 \<le> a" using b(1) unfolding e by simp
    with a53 have a: "a = 2 ^ 53" by simp
    have "real_of_int k / 2 = real_of_int (k div 2)"
    proof -
      have "\<bar>k\<bar> = 2 ^ 53"
      proof -
        have "real_of_int \<bar>k\<bar> = real_of_int (2 ^ 53)" using a by (simp add: a_def)
        then show ?thesis by (simp only: of_int_eq_iff)
      qed
      then have "even \<bar>k\<bar>" by simp
      then have "even k" by (simp only: dvd_abs_iff)
      then show ?thesis by (simp add: real_of_int_div)
    qed
    then have "rne (real_of_int k / 2) = k div 2"
      by (simp only: rne_of_int)
    moreover have "real_of_int (k div 2) * 2 = real_of_int k"
      using \<open>real_of_int k / 2 = real_of_int (k div 2)\<close> by simp
    ultimately show ?thesis unfolding v unfolding e by simp
  qed
qed

lemma binary64_error:
  assumes "2 powr (- 1022) \<le> \<bar>x\<bar>"
  shows "\<bar>binary64 x - x\<bar> \<le> \<bar>x\<bar> / 2 ^ 53"
proof -
  have x0: "0 < \<bar>x\<bar>" using assms by (rule less_le_trans [rotated]) simp
  define e0 where "e0 = \<lfloor>log 2 \<bar>x\<bar>\<rfloor>"
  have b: "2 powr real_of_int e0 \<le> \<bar>x\<bar>" "\<bar>x\<bar> < 2 powr real_of_int (e0 + 1)"
    using x0 floor_log_eq_powr_iff [of "\<bar>x\<bar>" 2 e0] by (simp_all add: e0_def)
  have "- 1022 \<le> log 2 \<bar>x\<bar>" using assms x0 by (simp add: le_log_iff)
  then have "- 1022 \<le> e0" by (simp add: e0_def le_floor_iff)
  then have m: "max e0 (- 1022) - 52 = e0 - 52" by simp
  define q where "q = 2 powr real_of_int (e0 - 52)"
  have q0: "0 < q" by (simp add: q_def)
  have v: "binary64 x = real_of_int (rne (x / q)) * q"
    using x0 m by (simp add: binary64_def Let_def e0_def [symmetric] q_def)
  have "\<bar>real_of_int (rne (x / q)) - x / q\<bar> \<le> 1 / 2" by (rule rne_error)
  then have "\<bar>real_of_int (rne (x / q)) - x / q\<bar> * q \<le> 1 / 2 * q"
    using q0 by (simp only: mult_le_cancel_right_pos)
  moreover have "\<bar>real_of_int (rne (x / q)) - x / q\<bar> * q = \<bar>real_of_int (rne (x / q)) * q - x\<bar>"
  proof -
    have "\<bar>real_of_int (rne (x / q)) - x / q\<bar> * q = \<bar>(real_of_int (rne (x / q)) - x / q) * q\<bar>"
      using q0 by (simp add: abs_mult)
    also have "(real_of_int (rne (x / q)) - x / q) * q = real_of_int (rne (x / q)) * q - x"
      using q0 by (simp add: algebra_simps)
    finally show ?thesis .
  qed
  ultimately have "\<bar>binary64 x - x\<bar> \<le> q / 2" unfolding v by simp
  also have "q / 2 = 2 powr real_of_int e0 / 2 ^ 53"
    by (simp add: q_def powr_diff)
  also have "\<dots> \<le> \<bar>x\<bar> / 2 ^ 53"
    using b(1) by (simp add: divide_right_mono)
  finally show ?thesis .
qed

section \<open>The angles of the McEwen and Wiaux sampling as doubles\<close>

lemma SSHT_PI_b64_value: "SSHT_PI_b64 = 884279719003555 / 2 ^ 48"
proof -
  note l = pi_lower_34 and u = pi_upper_34
  have "binary64 pi = real_of_int 7074237752028440 / 2 ^ 51"
  proof (rule binary64_up)
    show "(51::nat) \<le> 1074" by simp
    show "2 ^ 52 \<le> \<bar>pi\<bar> * 2 ^ 51" using l by simp
    show "\<bar>pi\<bar> * 2 ^ 51 < 2 ^ 53" using u by simp
    have "\<bar>pi * 2 ^ 51 - real_of_int 7074237752028440\<bar> < 1 / 2"
      using l u by simp
    then show "\<bar>pi * 2 ^ 51 - real_of_int 7074237752028440\<bar> < 1 / 2
        \<or> \<bar>pi * 2 ^ 51 - real_of_int 7074237752028440\<bar> = 1 / 2 \<and> even (7074237752028440 :: int)" ..
  qed
  then show ?thesis by (simp add: SSHT_PI_b64_def)
qed

lemma SSHT_PI_b64_error: "\<bar>SSHT_PI_b64 - pi\<bar> \<le> 13 / 10 ^ 17"
  unfolding SSHT_PI_b64_value using pi_lower_34 pi_upper_34 by simp

lemma binary64_odd_int:
  assumes "0 \<le> t" "t < 2 ^ 32"
  shows "binary64 (binary64 (2 * binary64 (real_of_int t)) + 1) = real_of_int (2 * t + 1)"
proof -
  have a: "binary64 (real_of_int t) = real_of_int t"
    using assms by (intro binary64_of_int) simp
  have "binary64 (real_of_int (2 * t)) = real_of_int (2 * t)"
    using assms by (intro binary64_of_int) simp
  then have b: "binary64 (2 * real_of_int t) = 2 * real_of_int t" by simp
  have "binary64 (real_of_int (2 * t + 1)) = real_of_int (2 * t + 1)"
    using assms by (intro binary64_of_int) simp
  then show ?thesis unfolding a b by simp
qed

lemma binary64_odd_int':
  assumes "1 \<le> L" "L < 2 ^ 32"
  shows "binary64 (binary64 (2 * binary64 (real_of_int L)) - 1) = real_of_int (2 * L - 1)"
proof -
  have a: "binary64 (real_of_int L) = real_of_int L"
    using assms by (intro binary64_of_int) simp
  have "binary64 (real_of_int (2 * L)) = real_of_int (2 * L)"
    using assms by (intro binary64_of_int) simp
  then have b: "binary64 (2 * real_of_int L) = 2 * real_of_int L" by simp
  have "binary64 (real_of_int (2 * L - 1)) = real_of_int (2 * L - 1)"
    using assms by (intro binary64_of_int) simp
  then show ?thesis unfolding a b by simp
qed

lemma t2theta_b64_eq:
  assumes "1 \<le> L" "L < 2 ^ 31" "0 \<le> t" "t \<le> 2 * L - 2"
  shows "ssht_sampling_mw_t2theta_b64 t L =
     binary64 (binary64 (real_of_int (2 * t + 1) * SSHT_PI_b64) / real_of_int (2 * L - 1))"
proof -
  have "t < 2 ^ 32" "L < 2 ^ 32" using assms by simp_all
  then show ?thesis
    unfolding ssht_sampling_mw_t2theta_b64_def
    using assms by (simp only: binary64_odd_int binary64_odd_int')
qed

lemma normal_range: "1 / 2 ^ 40 \<le> x \<Longrightarrow> 2 powr (- 1022) \<le> \<bar>x\<bar>" for x :: real
proof -
  assume a: "1 / 2 ^ 40 \<le> x"
  have "(2::real) powr (- 1022) = 1 / 2 ^ 1022"
    by (simp add: powr_minus powr_realpow field_simps)
  also have "\<dots> \<le> 1 / 2 ^ 40"
    by (intro divide_left_mono power_increasing) simp_all
  also note a
  finally show ?thesis by simp
qed

lemma t2theta_b64_error:
  assumes "1 \<le> L" "L < 2 ^ 31" "0 \<le> t" "t \<le> 2 * L - 2"
  shows "\<bar>ssht_sampling_mw_t2theta_b64 t L - (2 * real_of_int t + 1) * pi / (2 * real_of_int L - 1)\<bar>
     \<le> 2 / 10 ^ 15"
proof -
  define E where "E = real_of_int (2 * t + 1)"
  define D where "D = real_of_int (2 * L - 1)"
  define r where "r = E / D"
  define P :: real where "P = 884279719003555 / 2 ^ 48"
  define a where "a = binary64 (E * P)"
  define b where "b = binary64 (a / D)"
  have v: "ssht_sampling_mw_t2theta_b64 t L = b"
    unfolding b_def a_def E_def D_def P_def SSHT_PI_b64_value [symmetric]
    using assms by (rule t2theta_b64_eq)
  have E1: "1 \<le> E" using assms(3) by (simp add: E_def)
  have D1: "1 \<le> D" using assms(1) by (simp add: D_def)
  have "2 * t + 1 < 2 * (2 * L - 1)" using assms(4) by simp
  then have "real_of_int (2 * t + 1) < real_of_int (2 * (2 * L - 1))" by (simp only: of_int_less_iff)
  then have ED: "E < 2 * D" by (simp add: E_def D_def)
  have "L \<le> 2 ^ 31" using assms(2) by simp
  then have "real_of_int L \<le> real_of_int (2 ^ 31)" by (simp only: of_int_le_iff)
  then have D32: "D \<le> 2 ^ 32" by (simp add: D_def)
  have r0: "0 < r" using E1 D1 by (simp add: r_def)
  have r2: "r < 2" using ED D1 by (simp add: r_def pos_divide_less_eq)
  have rlow: "1 / 2 ^ 32 \<le> r"
  proof -
    have "1 / 2 ^ 32 \<le> 1 / D" using D1 D32 by (simp add: field_simps)
    also have "\<dots> \<le> E / D" using E1 D1 by (simp add: divide_right_mono)
    finally show ?thesis by (simp add: r_def)
  qed
  have P3: "3 < P" "P < 315 / 100" by (simp_all add: P_def)
  have EP: "1 \<le> E * P"
  proof -
    have "1 * 1 \<le> E * P" using E1 P3 by (intro mult_mono) simp_all
    then show ?thesis by simp
  qed
  have "\<bar>a - E * P\<bar> \<le> \<bar>E * P\<bar> / 2 ^ 53"
    unfolding a_def using EP by (intro binary64_error normal_range) simp
  then have e1: "\<bar>a - E * P\<bar> \<le> E * P / 9007199254740992" using EP by simp
  define q where "q = a / D"
  define y where "y = r * P"
  have aD: "q - y = (a - E * P) / D"
    using D1 by (simp add: q_def y_def r_def field_simps)
  have "\<bar>q - y\<bar> = \<bar>a - E * P\<bar> / D"
    unfolding aD using D1 by simp
  also have "\<dots> \<le> (E * P / 9007199254740992) / D"
    by (rule divide_right_mono [OF e1]) (use D1 in simp)
  also have "\<dots> = y / 9007199254740992"
    by (simp add: y_def r_def)
  finally have e1': "\<bar>q - y\<bar> \<le> y / 9007199254740992" .
  have rP: "3 * r < y" "y < 315 / 100 * r"
    using P3 r0 by (simp_all add: y_def mult.commute)
  have y8: "y < 63 / 10" using rP r2 by linarith
  have rlow': "1 / 4294967296 \<le> r" using rlow by simp
  have aup: "q \<le> 631 / 100" using e1' y8 by linarith
  have alow: "y / 2 \<le> q" using e1' rP r0 by linarith
  have "1 / 1099511627776 \<le> q" using alow rP rlow' by linarith
  then have "1 / 2 ^ 40 \<le> q" by simp
  then have "\<bar>b - q\<bar> \<le> \<bar>q\<bar> / 2 ^ 53"
    unfolding b_def q_def by (intro binary64_error normal_range)
  moreover have "0 \<le> q" using alow rP r0 by linarith
  ultimately have e2: "\<bar>b - q\<bar> \<le> q / 9007199254740992" by simp
  have "\<bar>y - r * pi\<bar> = r * \<bar>P - pi\<bar>"
    using r0 by (simp add: y_def abs_mult right_diff_distrib [symmetric])
  also have "\<dots> \<le> r * (13 / 10 ^ 17)"
    using SSHT_PI_b64_error r0 unfolding SSHT_PI_b64_value P_def by (intro mult_left_mono) simp_all
  finally have e3: "\<bar>y - r * pi\<bar> \<le> r * 13 / 100000000000000000" by simp
  have "\<bar>b - r * pi\<bar> \<le> \<bar>b - q\<bar> + \<bar>q - y\<bar> + \<bar>y - r * pi\<bar>"
    by linarith
  also have "\<dots> \<le> 631 / 100 / 9007199254740992 + 63 / 10 / 9007199254740992
      + 26 / 100000000000000000"
  proof -
    have "\<bar>b - q\<bar> \<le> 631 / 100 / 9007199254740992" using e2 aup by linarith
    moreover have "\<bar>q - y\<bar> \<le> 63 / 10 / 9007199254740992" using e1' y8 by linarith
    moreover have "\<bar>y - r * pi\<bar> \<le> 26 / 100000000000000000" using e3 r2 by linarith
    ultimately show ?thesis by linarith
  qed
  also have "\<dots> \<le> 2 / 1000000000000000" by simp
  finally have "\<bar>b - r * pi\<bar> \<le> 2 / 10 ^ 15" by simp
  moreover have "r * pi = (2 * real_of_int t + 1) * pi / (2 * real_of_int L - 1)"
    by (simp add: r_def E_def D_def)
  ultimately show ?thesis unfolding v by simp
qed

lemma abs_diff_pair:
  "\<bar>b1 - v1\<bar> \<le> e \<Longrightarrow> \<bar>b0 - v0\<bar> \<le> e \<Longrightarrow> v1 - v0 = w \<Longrightarrow> \<bar>b1 - b0 - w\<bar> \<le> 2 * e"
  for b0 b1 v0 v1 w e :: real
  by linarith

lemma abs_inside:
  "\<bar>b - v\<bar> \<le> e \<Longrightarrow> g \<le> v \<Longrightarrow> v \<le> h - g \<Longrightarrow> e < g \<Longrightarrow> 0 < b \<and> b < h"
  for b v e g h :: real
  by linarith

lemma t2theta_b64_spacing:
  assumes "1 \<le> L" "L < 2 ^ 31" "0 \<le> t" "t + 1 \<le> 2 * L - 2"
  shows "\<bar>ssht_sampling_mw_t2theta_b64 (t + 1) L - ssht_sampling_mw_t2theta_b64 t L
      - 2 * pi / (2 * real_of_int L - 1)\<bar> \<le> 4 / 10 ^ 15"
proof -
  have a: "\<bar>ssht_sampling_mw_t2theta_b64 t L - (2 * real_of_int t + 1) * pi / (2 * real_of_int L - 1)\<bar>
     \<le> 2 / 10 ^ 15"
    using assms by (intro t2theta_b64_error) simp_all
  have b: "\<bar>ssht_sampling_mw_t2theta_b64 (t + 1) L
      - (2 * real_of_int (t + 1) + 1) * pi / (2 * real_of_int L - 1)\<bar> \<le> 2 / 10 ^ 15"
    using assms by (intro t2theta_b64_error) simp_all
  have "(2 * real_of_int (t + 1) + 1) * pi / (2 * real_of_int L - 1)
      - (2 * real_of_int t + 1) * pi / (2 * real_of_int L - 1) = 2 * pi / (2 * real_of_int L - 1)"
    by (simp add: diff_divide_distrib [symmetric] algebra_simps)
  with b a have "\<bar>ssht_sampling_mw_t2theta_b64 (t + 1) L - ssht_sampling_mw_t2theta_b64 t L
      - 2 * pi / (2 * real_of_int L - 1)\<bar> \<le> 2 * (2 / 10 ^ 15)"
    by (rule abs_diff_pair)
  then show ?thesis by simp
qed

lemma t2theta_b64_range:
  assumes "1 \<le> L" "L < 2 ^ 31" "0 \<le> t" "t \<le> 2 * L - 2"
  shows "0 < ssht_sampling_mw_t2theta_b64 t L \<and> ssht_sampling_mw_t2theta_b64 t L < 2 * pi"
proof -
  define D where "D = 2 * real_of_int L - 1"
  define v where "v = (2 * real_of_int t + 1) * pi / D"
  have e: "\<bar>ssht_sampling_mw_t2theta_b64 t L - v\<bar> \<le> 2 / 10 ^ 15"
    unfolding v_def D_def using assms by (rule t2theta_b64_error)
  have D1: "1 \<le> D" using assms(1) by (simp add: D_def)
  have "L \<le> 2 ^ 31" using assms(2) by simp
  then have "real_of_int L \<le> real_of_int (2 ^ 31)" by (simp only: of_int_le_iff)
  then have D32: "D \<le> 2 ^ 32" by (simp add: D_def)
  have p: "3 < pi" using pi_lower_34 by simp
  have "3 / 2 ^ 32 \<le> 3 / D" using D1 D32 by (intro divide_left_mono) simp_all
  also have "\<dots> \<le> pi / D" using p D1 by (intro divide_right_mono) simp_all
  finally have g: "3 / 4294967296 \<le> pi / D" by simp
  have "real_of_int 0 \<le> real_of_int t" using assms(3) by (simp only: of_int_le_iff)
  then have "1 * pi \<le> (2 * real_of_int t + 1) * pi" by (intro mult_right_mono) simp_all
  then have "pi / D \<le> v" unfolding v_def using D1 by (intro divide_right_mono) simp_all
  then have lo: "3 / 4294967296 \<le> v" using g by linarith
  have "real_of_int t \<le> real_of_int (2 * L - 2)" using assms(4) by (simp only: of_int_le_iff)
  then have "2 * real_of_int t + 1 \<le> 2 * D - 1" by (simp add: D_def)
  then have "(2 * real_of_int t + 1) * pi \<le> (2 * D - 1) * pi" by (intro mult_right_mono) simp_all
  then have "v \<le> (2 * D - 1) * pi / D" unfolding v_def using D1 by (intro divide_right_mono) simp_all
  also have "\<dots> = 2 * pi - pi / D" using D1 by (simp add: field_simps)
  finally have hi: "v \<le> 2 * pi - 3 / 4294967296" using g by linarith
  have "2 / 10 ^ 15 < (3 / 4294967296 :: real)" by simp
  with e lo hi show ?thesis by (rule abs_inside)
qed

lemma t2theta_b64_0_2: "ssht_sampling_mw_t2theta_b64 0 2 = 4716158501352293 / 2 ^ 52"
proof -
  have a: "binary64 (real_of_int (2 * 0 + 1) * SSHT_PI_b64) = 884279719003555 / 2 ^ 48"
    unfolding SSHT_PI_b64_value
    using binary64_up [of 51 "real_of_int (2 * 0 + 1) * (884279719003555 / 2 ^ 48)" 7074237752028440]
    by simp
  have b: "binary64 (884279719003555 / 2 ^ 48 / real_of_int (2 * 2 - 1)) = 4716158501352293 / 2 ^ 52"
    using binary64_up [of 52 "884279719003555 / 2 ^ 48 / real_of_int (2 * 2 - 1)" 4716158501352293]
    by simp
  show ?thesis
    using t2theta_b64_eq [of 2 0] unfolding a b by simp
qed

lemma t2theta_b64_1_2: "ssht_sampling_mw_t2theta_b64 1 2 = 884279719003555 / 2 ^ 48"
proof -
  have a: "binary64 (real_of_int (2 * 1 + 1) * SSHT_PI_b64) = 2652839157010665 / 2 ^ 48"
    unfolding SSHT_PI_b64_value
    using binary64_up [of 49 "real_of_int (2 * 1 + 1) * (884279719003555 / 2 ^ 48)" 5305678314021330]
    by simp
  have b: "binary64 (2652839157010665 / 2 ^ 48 / real_of_int (2 * 2 - 1)) = 884279719003555 / 2 ^ 48"
    using binary64_up [of 51 "2652839157010665 / 2 ^ 48 / real_of_int (2 * 2 - 1)" 7074237752028440]
    by simp
  show ?thesis
    using t2theta_b64_eq [of 2 1] unfolding a b by simp
qed

lemma t2theta_b64_2_2: "ssht_sampling_mw_t2theta_b64 2 2 = 5895198126690367 / 2 ^ 50"
proof -
  have a: "binary64 (real_of_int (2 * 2 + 1) * SSHT_PI_b64) = 4421398595017775 / 2 ^ 48"
    unfolding SSHT_PI_b64_value
    using binary64_up [of 49 "real_of_int (2 * 2 + 1) * (884279719003555 / 2 ^ 48)" 8842797190035550]
    by simp
  have b: "binary64 (4421398595017775 / 2 ^ 48 / real_of_int (2 * 2 - 1)) = 5895198126690367 / 2 ^ 50"
    using binary64_up [of 50 "4421398595017775 / 2 ^ 48 / real_of_int (2 * 2 - 1)" 5895198126690367]
    by simp
  show ?thesis
    using t2theta_b64_eq [of 2 2] unfolding a b by simp
qed

text \<open>
  Claim C7 as stated fails in its last part: the angles that the code returns are not
  spaced by exactly \<open>2 pi / (2 L - 1)\<close>. For \<open>L = 2\<close> the three angles are
  \<open>4716158501352293 / 2 ^ 52\<close>, \<open>884279719003555 / 2 ^ 48\<close> and
  \<open>5895198126690367 / 2 ^ 50\<close>; the step from the second to the third is larger by
  \<open>1 / 2 ^ 52\<close> than the step from the first to the second, and it is not \<open>2 pi / 3\<close>.
\<close>

theorem mw_t2theta_spacing_counterexample:
  "ssht_sampling_mw_t2theta_b64 2 2 - ssht_sampling_mw_t2theta_b64 1 2
     \<noteq> ssht_sampling_mw_t2theta_b64 1 2 - ssht_sampling_mw_t2theta_b64 0 2
   \<and> ssht_sampling_mw_t2theta_b64 2 2 - ssht_sampling_mw_t2theta_b64 1 2 \<noteq> 2 * pi / (2 * 2 - 1)"
proof -
  have "ssht_sampling_mw_t2theta_b64 2 2 - ssht_sampling_mw_t2theta_b64 1 2
     \<noteq> ssht_sampling_mw_t2theta_b64 1 2 - ssht_sampling_mw_t2theta_b64 0 2"
    unfolding t2theta_b64_0_2 t2theta_b64_1_2 t2theta_b64_2_2 by simp
  moreover have "ssht_sampling_mw_t2theta_b64 2 2 - ssht_sampling_mw_t2theta_b64 1 2 \<noteq> 2 * pi / (2 * 2 - 1)"
  proof
    assume "ssht_sampling_mw_t2theta_b64 2 2 - ssht_sampling_mw_t2theta_b64 1 2 = 2 * pi / (2 * 2 - 1)"
    then have "pi = 3 * (5895198126690367 / 2 ^ 50 - 884279719003555 / 2 ^ 48) / 2"
      unfolding t2theta_b64_1_2 t2theta_b64_2_2 by simp
    with pi_upper_34 show False by simp
  qed
  ultimately show ?thesis ..
qed

text \<open>
  Claim C7, as the code has it. For every band-limit \<open>L \<ge> 1\<close> and every \<open>t\<close> in
  \<open>[0, 2 L - 2]\<close>, the expression of \<^verbatim>\<open>ssht_sampling_mw_t2theta(t, L)\<close> has the exact value
  \<open>(2 t + 1) pi / (2 L - 1)\<close>, strictly inside \<open>(0, 2 pi)\<close>, with steps of
  \<open>2 pi / (2 L - 1)\<close>; the \<^verbatim>\<open>double\<close> that the code returns for an \<^verbatim>\<open>int\<close> \<open>L\<close> lies within
  \<open>2 / 10 ^ 15\<close> of that value, strictly inside \<open>(0, 2 pi)\<close> at \<open>t = 0\<close> and at
  \<open>t = 2 L - 2\<close>, and the step from \<open>t\<close> to \<open>t + 1\<close> lies within \<open>4 / 10 ^ 15\<close> of
  \<open>2 pi / (2 L - 1)\<close>.
\<close>

theorem mw_t2theta_rounded:
  "(1 \<le> L \<and> 0 \<le> t \<and> t \<le> 2 * L - 2 \<longrightarrow>
     ssht_sampling_mw_t2theta t L = (2 * real_of_int t + 1) * pi / (2 * real_of_int L - 1)
     \<and> 0 < ssht_sampling_mw_t2theta t L \<and> ssht_sampling_mw_t2theta t L < 2 * pi
     \<and> 0 < ssht_sampling_mw_t2theta 0 L \<and> ssht_sampling_mw_t2theta 0 L < 2 * pi
     \<and> 0 < ssht_sampling_mw_t2theta (2 * L - 2) L \<and> ssht_sampling_mw_t2theta (2 * L - 2) L < 2 * pi
     \<and> ssht_sampling_mw_t2theta (t + 1) L - ssht_sampling_mw_t2theta t L
         = 2 * pi / (2 * real_of_int L - 1))
   \<and> (1 \<le> L \<and> L < 2 ^ 31 \<and> 0 \<le> t \<and> t \<le> 2 * L - 2 \<longrightarrow>
     \<bar>ssht_sampling_mw_t2theta_b64 t L - (2 * real_of_int t + 1) * pi / (2 * real_of_int L - 1)\<bar>
         \<le> 2 / 10 ^ 15
     \<and> 0 < ssht_sampling_mw_t2theta_b64 0 L \<and> ssht_sampling_mw_t2theta_b64 0 L < 2 * pi
     \<and> 0 < ssht_sampling_mw_t2theta_b64 (2 * L - 2) L
     \<and> ssht_sampling_mw_t2theta_b64 (2 * L - 2) L < 2 * pi
     \<and> (t + 1 \<le> 2 * L - 2 \<longrightarrow>
          \<bar>ssht_sampling_mw_t2theta_b64 (t + 1) L - ssht_sampling_mw_t2theta_b64 t L
             - 2 * pi / (2 * real_of_int L - 1)\<bar> \<le> 4 / 10 ^ 15))"
proof (intro conjI impI)
  assume a: "1 \<le> L \<and> L < 2 ^ 31 \<and> 0 \<le> t \<and> t \<le> 2 * L - 2"
  then have h: "1 \<le> L" "L < 2 ^ 31" "0 \<le> t" "t \<le> 2 * L - 2" by simp_all
  from h show "\<bar>ssht_sampling_mw_t2theta_b64 t L
      - (2 * real_of_int t + 1) * pi / (2 * real_of_int L - 1)\<bar> \<le> 2 / 10 ^ 15"
    by (rule t2theta_b64_error)
  have z: "0 \<le> (0 :: int)" "0 \<le> 2 * L - 2" "(0 :: int) \<le> 2 * L - 2" "2 * L - 2 \<le> 2 * L - 2"
    using h(1) by simp_all
  from t2theta_b64_range [OF h(1) h(2) z(1) z(3)]
  show "0 < ssht_sampling_mw_t2theta_b64 0 L" "ssht_sampling_mw_t2theta_b64 0 L < 2 * pi"
    by simp_all
  from t2theta_b64_range [OF h(1) h(2) z(2) z(4)]
  show "0 < ssht_sampling_mw_t2theta_b64 (2 * L - 2) L"
    "ssht_sampling_mw_t2theta_b64 (2 * L - 2) L < 2 * pi"
    by simp_all
  assume "t + 1 \<le> 2 * L - 2"
  with h(1-3) show "\<bar>ssht_sampling_mw_t2theta_b64 (t + 1) L - ssht_sampling_mw_t2theta_b64 t L
             - 2 * pi / (2 * real_of_int L - 1)\<bar> \<le> 4 / 10 ^ 15"
    by (rule t2theta_b64_spacing)
qed (use mw_t2theta_exact [of L t] in simp_all)

text \<open>
  The theorem at \<open>L = 2\<close>, \<open>t = 1\<close>: the middle one of the three angles is \<open>pi\<close>, the
  \<^verbatim>\<open>double\<close> returned for it and the step to the third angle are within the bounds.
\<close>

theorem mw_t2theta_rounded_witness:
  "(1 :: int) \<le> 2 \<and> (2 :: int) < 2 ^ 31 \<and> (0 :: int) \<le> 1 \<and> (1 :: int) \<le> 2 * 2 - 2
   \<and> (1 :: int) + 1 \<le> 2 * 2 - 2
   \<and> ssht_sampling_mw_t2theta 1 2 = pi
   \<and> ssht_sampling_mw_t2theta 2 2 - ssht_sampling_mw_t2theta 1 2 = 2 * pi / 3
   \<and> \<bar>ssht_sampling_mw_t2theta_b64 1 2 - pi\<bar> \<le> 2 / 10 ^ 15
   \<and> \<bar>ssht_sampling_mw_t2theta_b64 2 2 - ssht_sampling_mw_t2theta_b64 1 2 - 2 * pi / 3\<bar>
        \<le> 4 / 10 ^ 15"
  using mw_t2theta_rounded [of 2 1] by simp

section \<open>Roundings checked by comparisons\<close>







section \<open>The first guesses of the Newton loop as doubles\<close>








section \<open>The loops of gauleg in binary64\<close>

















section \<open>The middle root of 57 points in binary64\<close>






section \<open>Three points in binary64\<close>

















section \<open>The mirrored stores of gauleg\<close>






end
